theory Spec2Isabelle
  imports Complex_Main
begin

section \<open>The scale kernel of src/caffe/swutil/slave/sw_slave_sscal.c\<close>

text \<open>
  The file holds one kernel, \<^verbatim>\<open>sw_slave_sscal_f\<close>, run by each of the 64 workers of a
  core group, and an entry point \<^verbatim>\<open>sw_slave_sscal_d\<close> whose whole body is a comment.
  C \<^verbatim>\<open>int\<close> values are modelled as \<open>int\<close>; lemma \<open>partition_fits_int32\<close> below shows
  that for a count in the range of a 32-bit \<^verbatim>\<open>int\<close> no intermediate value of the partition
  arithmetic leaves that range, so no wrap-around is ever taken.
\<close>

subsection \<open>Constants and C integer arithmetic\<close>

definition SPNUM :: int where
  "SPNUM = 64"

text \<open>\<^verbatim>\<open>#define BUFFSIZE 4*1024\<close>, as it is in force for \<^verbatim>\<open>sw_slave_sscal_f\<close>. The macro has
  no parentheses; every use in the kernel is as a summand or as a factor on the left of a
  product, where the expansion reads the same as the parenthesised value.\<close>

definition BUFFSIZE :: int where
  "BUFFSIZE = 4 * 1024"

definition SIMDSIZE :: int where
  "SIMDSIZE = 4"

definition sizeof_float :: int where
  "sizeof_float = 4"

text \<open>C99 division truncates towards zero, and the remainder takes the sign of the dividend.\<close>

definition c_div :: "int \<Rightarrow> int \<Rightarrow> int" where
  "c_div a b = sgn a * sgn b * (\<bar>a\<bar> div \<bar>b\<bar>)"

definition c_mod :: "int \<Rightarrow> int \<Rightarrow> int" where
  "c_mod a b = a - b * c_div a b"

text \<open>The \<^verbatim>\<open>int\<close> value of a C comparison.\<close>

definition c_bool :: "bool \<Rightarrow> int" where
  "c_bool p = (if p then 1 else 0)"

subsection \<open>The partitioner (lines 100 to 103)\<close>

text \<open>\<^verbatim>\<open>int local_count = count/SPNUM + (id<(count%SPNUM));\<close>, with \<open>tid\<close> for the
  worker's \<^verbatim>\<open>id\<close>.\<close>

definition local_count_of :: "int \<Rightarrow> int \<Rightarrow> int" where
  "local_count_of cnt tid = c_div cnt SPNUM + c_bool (tid < c_mod cnt SPNUM)"

text \<open>\<^verbatim>\<open>int start = id*(count/SPNUM) + (id<(count%SPNUM)?id:(count%SPNUM));\<close>\<close>

definition start_of :: "int \<Rightarrow> int \<Rightarrow> int" where
  "start_of cnt tid =
     tid * c_div cnt SPNUM + (if tid < c_mod cnt SPNUM then tid else c_mod cnt SPNUM)"

text \<open>The partition contract in the words of the specification, for a population \<open>P\<close>.\<close>

definition spec_local_count :: "int \<Rightarrow> int \<Rightarrow> int \<Rightarrow> int" where
  "spec_local_count N P tid = N div P + (if tid < N mod P then 1 else 0)"

definition spec_start_offset :: "int \<Rightarrow> int \<Rightarrow> int \<Rightarrow> int" where
  "spec_start_offset N P tid = tid * (N div P) + min tid (N mod P)"

text \<open>The half-open range of element indices that worker \<open>tid\<close> owns.\<close>

definition worker_range :: "int \<Rightarrow> int \<Rightarrow> int set" where
  "worker_range cnt tid = {start_of cnt tid ..< start_of cnt tid + local_count_of cnt tid}"

subsection \<open>Data of the kernel\<close>

text \<open>
  Global memory is a store from element addresses to values. The element type \<open>'a\<close> stands
  for \<^verbatim>\<open>float\<close>, and the kernel takes the machine's single-precision product as its
  parameter \<open>mul\<close>: the vector unit and its arithmetic come from \<^verbatim>\<open>simd.h\<close>, which is
  not part of the sources. Addresses count elements, so \<^verbatim>\<open>&p[k]\<close> is \<open>p + k\<close>.
\<close>

text \<open>\<^verbatim>\<open>sscalPara\<close>. The scalar is the member \<^verbatim>\<open>alpha.f\<close> of the union \<^verbatim>\<open>TypeVal\<close>.\<close>

record 'a sscalPara =
  src :: int
  dst :: int
  alpha :: 'a
  count :: int

datatype dma_op = DMA_GET | DMA_PUT

text \<open>A transfer descriptor: its direction and its size in bytes. The mode and the reply
  word only synchronise; every \<^verbatim>\<open>dma\<close> of the kernel is followed at once by
  \<^verbatim>\<open>dma_wait\<close> on its reply, so a transfer is complete when \<open>dma\<close> returns.\<close>

record dma_desc =
  d_op :: dma_op
  d_size :: int

text \<open>What a worker does to the world outside its registers, in program order.\<close>

datatype event = LdmMalloc int | LdmFree int | DmaGet int int | DmaPut int int

text \<open>A staging buffer in local memory. A cell that was never written holds no value:
  reading it, or indexing outside \<open>[0, BUFFSIZE)\<close>, is an error (\<open>None\<close>).\<close>

type_synonym 'a buf = "int \<Rightarrow> 'a option"

text \<open>What one worker sees: global memory, its two thread-local transfer descriptors
  (\<^verbatim>\<open>__thread_local_fix dma_desc dma_get_sscal_src, dma_put_sscal_dst\<close>) and the
  record of its allocations and transfers.\<close>

record 'a cpe =
  gmem :: "int \<Rightarrow> 'a"
  dma_get_sscal_src :: dma_desc
  dma_put_sscal_dst :: dma_desc
  trace :: "event list"

datatype 'a floatv4 = V4 'a 'a 'a 'a

subsection \<open>Primitives of the runtime\<close>

definition buf_read :: "'a buf \<Rightarrow> int \<Rightarrow> 'a option" where
  "buf_read b i = (if 0 \<le> i \<and> i < BUFFSIZE then b i else None)"

definition buf_write :: "'a buf \<Rightarrow> int \<Rightarrow> 'a \<Rightarrow> 'a buf option" where
  "buf_write b i v = (if 0 \<le> i \<and> i < BUFFSIZE then Some (b(i \<mapsto> v)) else None)"

text \<open>Modelled from the spec: the allocator of local memory (\<^verbatim>\<open>ldm_malloc\<close>,
  \<^verbatim>\<open>ldm_free\<close> of \<^verbatim>\<open>slave.h\<close>), "acquire(size) -> buffer / release(buffer, size)".
  A fresh buffer has no defined cell.\<close>

definition ldm_malloc :: "int \<Rightarrow> 'a cpe \<Rightarrow> 'a buf \<times> 'a cpe" where
  "ldm_malloc n c = (Map.empty, c\<lparr>trace := trace c @ [LdmMalloc n]\<rparr>)"

definition ldm_free :: "int \<Rightarrow> 'a cpe \<Rightarrow> 'a cpe" where
  "ldm_free n c = c\<lparr>trace := trace c @ [LdmFree n]\<rparr>"

text \<open>Modelled from the spec: the transfer primitives of \<^verbatim>\<open>dma.h\<close>, "configure(descriptor,
  direction, ...), configure(descriptor, size), issue(descriptor, global_address,
  local_address)": a transfer moves a contiguous block of \<open>size\<close> bytes between a global
  address and the start of a staging buffer. A block larger than the buffer, or a put of a
  cell that holds no value, is an error.\<close>

definition dma_set_op :: "dma_desc \<Rightarrow> dma_op \<Rightarrow> dma_desc" where
  "dma_set_op d x = d\<lparr>d_op := x\<rparr>"

definition dma_set_size :: "dma_desc \<Rightarrow> int \<Rightarrow> dma_desc" where
  "dma_set_size d n = d\<lparr>d_size := n\<rparr>"

definition dma :: "dma_desc \<Rightarrow> int \<Rightarrow> 'a buf \<Rightarrow> 'a cpe \<Rightarrow> ('a buf \<times> 'a cpe) option" where
  "dma d ga b c =
     (let n = d_size d div sizeof_float in
      if n < 0 \<or> BUFFSIZE < n then None
      else (case d_op d of
          DMA_GET \<Rightarrow>
            Some (\<lambda>k. if 0 \<le> k \<and> k < n then Some (gmem c (ga + k)) else b k,
                  c\<lparr>trace := trace c @ [DmaGet ga n]\<rparr>)
        | DMA_PUT \<Rightarrow>
            if \<forall>k \<in> {0 ..< n}. b k \<noteq> None
            then Some (b, c\<lparr>gmem := (\<lambda>x. if ga \<le> x \<and> x < ga + n then the (b (x - ga)) else gmem c x),
                            trace := trace c @ [DmaPut ga n]\<rparr>)
            else None))"

text \<open>Modelled from the spec: the vector unit of \<^verbatim>\<open>simd.h\<close>, "load N contiguous elements
  into a vector register, multiply two vectors lane-wise, store a vector register to N
  contiguous elements, for a fixed lane width (4 in this design)".\<close>

definition simd_bcast :: "'a \<Rightarrow> 'a floatv4" where
  "simd_bcast a = V4 a a a a"

fun simd_mul :: "('a \<Rightarrow> 'a \<Rightarrow> 'a) \<Rightarrow> 'a floatv4 \<Rightarrow> 'a floatv4 \<Rightarrow> 'a floatv4" where
  "simd_mul mul (V4 a0 a1 a2 a3) (V4 b0 b1 b2 b3) = V4 (mul a0 b0) (mul a1 b1) (mul a2 b2) (mul a3 b3)"

definition simd_load :: "'a buf \<Rightarrow> int \<Rightarrow> 'a floatv4 option" where
  "simd_load b i =
     (case buf_read b i of None \<Rightarrow> None | Some x0 \<Rightarrow>
      case buf_read b (i + 1) of None \<Rightarrow> None | Some x1 \<Rightarrow>
      case buf_read b (i + 2) of None \<Rightarrow> None | Some x2 \<Rightarrow>
      case buf_read b (i + 3) of None \<Rightarrow> None | Some x3 \<Rightarrow> Some (V4 x0 x1 x2 x3))"

fun simd_store :: "'a floatv4 \<Rightarrow> 'a buf \<Rightarrow> int \<Rightarrow> 'a buf option" where
  "simd_store (V4 x0 x1 x2 x3) b i =
     (case buf_write b i x0 of None \<Rightarrow> None | Some b0 \<Rightarrow>
      case buf_write b0 (i + 1) x1 of None \<Rightarrow> None | Some b1 \<Rightarrow>
      case buf_write b1 (i + 2) x2 of None \<Rightarrow> None | Some b2 \<Rightarrow>
      buf_write b2 (i + 3) x3)"

subsection \<open>The loops of \<^verbatim>\<open>sw_slave_sscal_f\<close>\<close>

text \<open>Lines 130 to 134: \<^verbatim>\<open>for(i=0; i<BUFFSIZE; i+=SIMDSIZE)\<close>.\<close>

function full_simd_loop ::
  "('a \<Rightarrow> 'a \<Rightarrow> 'a) \<Rightarrow> 'a floatv4 \<Rightarrow> int \<Rightarrow> 'a buf \<Rightarrow> 'a buf \<Rightarrow> 'a buf option" where
  "full_simd_loop mul valpha i local_src local_dst =
     (if i < BUFFSIZE then
        (case simd_load local_src i of None \<Rightarrow> None | Some vsrc \<Rightarrow>
         case simd_store (simd_mul mul vsrc valpha) local_dst i of None \<Rightarrow> None | Some ld \<Rightarrow>
         full_simd_loop mul valpha (i + SIMDSIZE) local_src ld)
      else Some local_dst)"
  by pat_completeness auto
termination
  by (relation "measure (\<lambda>(mul, valpha, i, ls, ld). nat (BUFFSIZE - i))")
     (auto simp: SIMDSIZE_def)

text \<open>Lines 146 to 150: \<^verbatim>\<open>for(i=0; i+SIMDSIZE-1<local_count-off; i+=SIMDSIZE)\<close>, with
  \<open>n\<close> for \<^verbatim>\<open>local_count-off\<close>. The loop hands its final \<open>i\<close> to the scalar loop.\<close>

function tail_simd_loop ::
  "('a \<Rightarrow> 'a \<Rightarrow> 'a) \<Rightarrow> 'a floatv4 \<Rightarrow> int \<Rightarrow> int \<Rightarrow> 'a buf \<Rightarrow> 'a buf \<Rightarrow> (int \<times> 'a buf) option" where
  "tail_simd_loop mul valpha n i local_src local_dst =
     (if i + SIMDSIZE - 1 < n then
        (case simd_load local_src i of None \<Rightarrow> None | Some vsrc \<Rightarrow>
         case simd_store (simd_mul mul vsrc valpha) local_dst i of None \<Rightarrow> None | Some ld \<Rightarrow>
         tail_simd_loop mul valpha n (i + SIMDSIZE) local_src ld)
      else Some (i, local_dst))"
  by pat_completeness auto
termination
  by (relation "measure (\<lambda>(mul, valpha, n, i, ls, ld). nat (n - i))")
     (auto simp: SIMDSIZE_def)

text \<open>Lines 151 to 153: \<^verbatim>\<open>for(; i<local_count-off; i++) local_dst[i] = local_src[i] * alpha;\<close>\<close>

function scalar_loop ::
  "('a \<Rightarrow> 'a \<Rightarrow> 'a) \<Rightarrow> 'a \<Rightarrow> int \<Rightarrow> int \<Rightarrow> 'a buf \<Rightarrow> 'a buf \<Rightarrow> 'a buf option" where
  "scalar_loop mul al n i local_src local_dst =
     (if i < n then
        (case buf_read local_src i of None \<Rightarrow> None | Some x \<Rightarrow>
         case buf_write local_dst i (mul x al) of None \<Rightarrow> None | Some ld \<Rightarrow>
         scalar_loop mul al n (i + 1) local_src ld)
      else Some local_dst)"
  by pat_completeness auto
termination
  by (relation "measure (\<lambda>(mul, al, n, i, ls, ld). nat (n - i))") auto

text \<open>Lines 124 to 139: \<^verbatim>\<open>for(off = 0; off+BUFFSIZE-1<local_count; off+=BUFFSIZE)\<close>. The
  loop returns the final \<open>off\<close>, which the tail test reads.\<close>

function chunk_loop ::
  "('a \<Rightarrow> 'a \<Rightarrow> 'a) \<Rightarrow> 'a floatv4 \<Rightarrow> int \<Rightarrow> int \<Rightarrow> int \<Rightarrow> int \<Rightarrow> 'a buf \<Rightarrow> 'a buf \<Rightarrow> 'a cpe
     \<Rightarrow> (int \<times> 'a buf \<times> 'a buf \<times> 'a cpe) option" where
  "chunk_loop mul valpha src_ptr dst_ptr local_count off local_src local_dst c =
     (if off + BUFFSIZE - 1 < local_count then
        (case dma (dma_get_sscal_src c) (src_ptr + off) local_src c of None \<Rightarrow> None
         | Some (ls, c1) \<Rightarrow>
        (case full_simd_loop mul valpha 0 ls local_dst of None \<Rightarrow> None
         | Some ld \<Rightarrow>
        (case dma (dma_put_sscal_dst c1) (dst_ptr + off) ld c1 of None \<Rightarrow> None
         | Some (ld', c2) \<Rightarrow>
            chunk_loop mul valpha src_ptr dst_ptr local_count (off + BUFFSIZE) ls ld' c2)))
      else Some (off, local_src, local_dst, c))"
  by pat_completeness auto
termination
  by (relation "measure (\<lambda>(mul, valpha, sp, dp, lc, off, ls, ld, c). nat (lc - off))")
     (auto simp: BUFFSIZE_def)

text \<open>Lines 141 to 159, the body of \<^verbatim>\<open>if(off<local_count)\<close>.\<close>

definition tail_chunk ::
  "('a \<Rightarrow> 'a \<Rightarrow> 'a) \<Rightarrow> 'a \<Rightarrow> 'a floatv4 \<Rightarrow> int \<Rightarrow> int \<Rightarrow> int \<Rightarrow> int \<Rightarrow> 'a buf \<Rightarrow> 'a buf \<Rightarrow> 'a cpe
     \<Rightarrow> 'a cpe option" where
  "tail_chunk mul al valpha src_ptr dst_ptr local_count off local_src local_dst c =
     (let c1 = c\<lparr>dma_get_sscal_src :=
                  dma_set_size (dma_get_sscal_src c) ((local_count - off) * sizeof_float)\<rparr>
      in case dma (dma_get_sscal_src c1) (src_ptr + off) local_src c1 of None \<Rightarrow> None
         | Some (ls, c2) \<Rightarrow>
        (case tail_simd_loop mul valpha (local_count - off) 0 ls local_dst of None \<Rightarrow> None
         | Some (i, ld) \<Rightarrow>
        (case scalar_loop mul al (local_count - off) i ls ld of None \<Rightarrow> None
         | Some ld' \<Rightarrow>
           (let c3 = c2\<lparr>dma_put_sscal_dst :=
                         dma_set_size (dma_put_sscal_dst c2) ((local_count - off) * sizeof_float)\<rparr>
            in case dma (dma_put_sscal_dst c3) (dst_ptr + off) ld' c3 of None \<Rightarrow> None
               | Some (ld'', c4) \<Rightarrow> Some c4))))"

subsection \<open>The two entry points\<close>

text \<open>\<^verbatim>\<open>sw_slave_sscal_f\<close>, lines 96 to 163; \<open>tid\<close> is the value of
  \<^verbatim>\<open>athread_get_id(-1)\<close>.\<close>

definition sw_slave_sscal_f ::
  "('a \<Rightarrow> 'a \<Rightarrow> 'a) \<Rightarrow> 'a sscalPara \<Rightarrow> int \<Rightarrow> 'a cpe \<Rightarrow> 'a cpe option" where
  "sw_slave_sscal_f mul para tid c0 =
     (let (local_src, c1) = ldm_malloc (BUFFSIZE * sizeof_float) c0;
          (local_dst, c2) = ldm_malloc (BUFFSIZE * sizeof_float) c1;
          local_count = local_count_of (count para) tid;
          start = start_of (count para) tid;
          src_ptr = src para + start;
          dst_ptr = dst para + start;
          al = alpha para;
          valpha = simd_bcast al;
          c3 = c2\<lparr>dma_get_sscal_src := dma_set_op (dma_get_sscal_src c2) DMA_GET\<rparr>;
          c4 = c3\<lparr>dma_put_sscal_dst := dma_set_op (dma_put_sscal_dst c3) DMA_PUT\<rparr>;
          c5 = c4\<lparr>dma_get_sscal_src :=
                    dma_set_size (dma_get_sscal_src c4) (BUFFSIZE * sizeof_float)\<rparr>;
          c6 = c5\<lparr>dma_put_sscal_dst :=
                    dma_set_size (dma_put_sscal_dst c5) (BUFFSIZE * sizeof_float)\<rparr>
      in case chunk_loop mul valpha src_ptr dst_ptr local_count 0 local_src local_dst c6 of
           None \<Rightarrow> None
         | Some (off, ls, ld, c7) \<Rightarrow>
            (case (if off < local_count
                   then tail_chunk mul al valpha src_ptr dst_ptr local_count off ls ld c7
                   else Some c7) of
               None \<Rightarrow> None
             | Some c8 \<Rightarrow>
                 Some (ldm_free (BUFFSIZE * sizeof_float)
                        (ldm_free (BUFFSIZE * sizeof_float) c8))))"

text \<open>\<^verbatim>\<open>sw_slave_sscal_d\<close>, lines 25 to 93: the body is one comment from its first line to
  its last, so the function returns at once.\<close>

definition sw_slave_sscal_d :: "'a sscalPara \<Rightarrow> int \<Rightarrow> 'a cpe \<Rightarrow> 'a cpe option" where
  "sw_slave_sscal_d para tid c = Some c"

subsection \<open>Running the population of workers\<close>

text \<open>Modelled from the spec: the launch of the workers, which is host code outside the
  sources: "a fixed population of P independent worker instances", each running the kernel
  once on the same descriptor. The machine holds global memory and every worker's
  thread-local descriptors; the workers share nothing else, and they are run one after the
  other in the order of the list \<open>ids\<close>.\<close>

record 'a machine =
  mem :: "int \<Rightarrow> 'a"
  tls :: "int \<Rightarrow> dma_desc \<times> dma_desc"

definition run_worker ::
  "('a sscalPara \<Rightarrow> int \<Rightarrow> 'a cpe \<Rightarrow> 'a cpe option) \<Rightarrow> 'a sscalPara \<Rightarrow> 'a machine \<Rightarrow> int
     \<Rightarrow> 'a machine option" where
  "run_worker entry para M tid =
     (case entry para tid
             \<lparr>gmem = mem M, dma_get_sscal_src = fst (tls M tid),
              dma_put_sscal_dst = snd (tls M tid), trace = []\<rparr> of
        None \<Rightarrow> None
      | Some c \<Rightarrow>
          Some \<lparr>mem = gmem c,
                tls = (tls M)(tid := (dma_get_sscal_src c, dma_put_sscal_dst c))\<rparr>)"

fun run_workers ::
  "('a sscalPara \<Rightarrow> int \<Rightarrow> 'a cpe \<Rightarrow> 'a cpe option) \<Rightarrow> 'a sscalPara \<Rightarrow> 'a machine \<Rightarrow> int list
     \<Rightarrow> 'a machine option" where
  "run_workers entry para M [] = Some M"
| "run_workers entry para M (tid # ids) =
     (case run_worker entry para M tid of
        None \<Rightarrow> None
      | Some M' \<Rightarrow> run_workers entry para M' ids)"

text \<open>The workers in the order of their indices, \<open>0, \<dots>, SPNUM - 1\<close>.\<close>

definition all_workers :: "int list" where
  "all_workers = [0 .. SPNUM - 1]"

subsection \<open>What the loops are shown to compute\<close>

text \<open>The destination buffer after the cells \<open>[lo, hi)\<close> were scaled.\<close>

definition scaled_buf :: "('a \<Rightarrow> 'a \<Rightarrow> 'a) \<Rightarrow> 'a \<Rightarrow> 'a buf \<Rightarrow> 'a buf \<Rightarrow> int \<Rightarrow> int \<Rightarrow> 'a buf" where
  "scaled_buf mul al ls ld lo hi = (\<lambda>k. if lo \<le> k \<and> k < hi then Some (mul (the (ls k)) al) else ld k)"

text \<open>Global memory after the destination elements \<open>[lo, hi)\<close> behind \<open>dp\<close> were set to
  the scaled source elements behind \<open>sp\<close>, read from the memory \<open>m\<close>.\<close>

definition scal_block ::
  "('a \<Rightarrow> 'a \<Rightarrow> 'a) \<Rightarrow> 'a \<Rightarrow> (int \<Rightarrow> 'a) \<Rightarrow> int \<Rightarrow> int \<Rightarrow> int \<Rightarrow> int \<Rightarrow> int \<Rightarrow> 'a" where
  "scal_block mul al m sp dp lo hi =
     (\<lambda>x. if dp + lo \<le> x \<and> x < dp + hi then mul (m (sp + (x - dp))) al else m x)"

text \<open>Source and destination are one vector or two vectors that do not overlap.\<close>

definition no_clobber :: "int \<Rightarrow> int \<Rightarrow> int \<Rightarrow> bool" where
  "no_clobber sp dp n \<longleftrightarrow> sp = dp \<or> sp + n \<le> dp \<or> dp + n \<le> sp"

text \<open>A transfer that stays inside the elements \<open>[lo, hi)\<close>: an in-transfer inside the
  source, an out-transfer inside the destination.\<close>

fun xfer_in_range :: "int \<Rightarrow> int \<Rightarrow> int \<Rightarrow> int \<Rightarrow> event \<Rightarrow> bool" where
  "xfer_in_range sp dp lo hi (DmaGet a n) = (0 < n \<and> sp + lo \<le> a \<and> a + n \<le> sp + hi)"
| "xfer_in_range sp dp lo hi (DmaPut a n) = (0 < n \<and> dp + lo \<le> a \<and> a + n \<le> dp + hi)"
| "xfer_in_range sp dp lo hi (LdmMalloc n) = False"
| "xfer_in_range sp dp lo hi (LdmFree n) = False"

text \<open>Global memory after the destination elements with index in \<open>R\<close> were set to the
  scaled source elements, read from the memory \<open>m\<close>; \<open>s\<close> and \<open>d\<close> are the two base
  addresses of the descriptor.\<close>

definition scaled_on ::
  "('a \<Rightarrow> 'a \<Rightarrow> 'a) \<Rightarrow> 'a \<Rightarrow> (int \<Rightarrow> 'a) \<Rightarrow> int \<Rightarrow> int \<Rightarrow> int set \<Rightarrow> int \<Rightarrow> 'a" where
  "scaled_on mul al m s d R = (\<lambda>x. if x - d \<in> R then mul (m (s + (x - d))) al else m x)"

subsection \<open>Concrete inputs\<close>

text \<open>A descriptor in the state some earlier use left it in.\<close>

definition idle_desc :: dma_desc where
  "idle_desc = \<lparr>d_op = DMA_PUT, d_size = 0\<rparr>"

text \<open>Memory whose cell \<open>a\<close> holds the number \<open>a\<close>, so that a source vector at address 0 is
  \<open>[0, 1, 2, \<dots>]\<close>. The elements of the examples are small integers, which single precision
  holds exactly, and so are their products with 2; the product of the reals is the product
  of the machine on them.\<close>

definition ex_cpe :: "real cpe" where
  "ex_cpe = \<lparr>gmem = (\<lambda>a. of_int a), dma_get_sscal_src = idle_desc,
             dma_put_sscal_dst = idle_desc, trace = []\<rparr>"

definition ex_machine :: "real machine" where
  "ex_machine = \<lparr>mem = (\<lambda>a. of_int a), tls = (\<lambda>t. (idle_desc, idle_desc))\<rparr>"

text \<open>Ten elements at address 0 scaled by 2 into the ten elements at address 100.\<close>

definition ex_para :: "real sscalPara" where
  "ex_para = \<lparr>src = 0, dst = 100, alpha = 2, count = 10\<rparr>"

text \<open>The same vector as source and destination: the scaling in place of ten elements.\<close>

definition inplace_para :: "real sscalPara" where
  "inplace_para = \<lparr>src = 0, dst = 0, alpha = 2, count = 10\<rparr>"

text \<open>Two elements whose destination starts one element behind the start of the source, so
  that the two vectors share a cell.\<close>

definition overlap_para :: "real sscalPara" where
  "overlap_para = \<lparr>src = 3, dst = 4, alpha = 2, count = 2\<rparr>"

text \<open>One chunk size of elements, again with the destination one element behind the
  source.\<close>

definition shifted_para :: "real sscalPara" where
  "shifted_para = \<lparr>src = 0, dst = 1, alpha = 2, count = 4096\<rparr>"

text \<open>One chunk of \<open>BUFFSIZE\<close> elements for each of the 64 workers, and a memory that holds
  the same source elements as \<open>ex_machine\<close> and zeros everywhere else.\<close>

definition big_para :: "real sscalPara" where
  "big_para = \<lparr>src = 0, dst = 300000, alpha = 2, count = 262144\<rparr>"

definition zeroed_machine :: "real machine" where
  "zeroed_machine = \<lparr>mem = (\<lambda>a. if 0 \<le> a \<and> a < 262144 then of_int a else 0),
                     tls = (\<lambda>t. (idle_desc, idle_desc))\<rparr>"

text \<open>The loops are unfolded one step at a time, where a proof asks for it.\<close>

declare full_simd_loop.simps [simp del]
declare tail_simd_loop.simps [simp del]
declare scalar_loop.simps [simp del]
declare chunk_loop.simps [simp del]

subsection \<open>Facts about the partitioner\<close>

lemma c_div_nonneg: "0 \<le> a \<Longrightarrow> 0 < b \<Longrightarrow> c_div a b = a div b"
  by (cases "a = 0") (simp_all add: c_div_def)

lemma c_mod_nonneg: "0 \<le> a \<Longrightarrow> 0 < b \<Longrightarrow> c_mod a b = a mod b"
  by (simp add: c_mod_def c_div_nonneg minus_mult_div_eq_mod)

lemma local_count_nonneg_count:
  "0 \<le> N \<Longrightarrow> local_count_of N tid = N div 64 + (if tid < N mod 64 then 1 else 0)"
  by (simp add: local_count_of_def SPNUM_def c_div_nonneg c_mod_nonneg c_bool_def)

lemma start_nonneg_count:
  "0 \<le> N \<Longrightarrow> start_of N tid = tid * (N div 64) + min tid (N mod 64)"
  by (simp add: start_of_def SPNUM_def c_div_nonneg c_mod_nonneg min_def)

lemma start_of_zero: "0 \<le> N \<Longrightarrow> start_of N 0 = 0"
  by (simp add: start_nonneg_count)

lemma start_of_last: "0 \<le> N \<Longrightarrow> start_of N 64 = N"
proof -
  assume "0 \<le> N"
  have "N mod 64 < 64" by simp
  then have "min 64 (N mod 64) = N mod 64" by simp
  then have "start_of N 64 = 64 * (N div 64) + N mod 64"
    using \<open>0 \<le> N\<close> by (simp add: start_nonneg_count)
  then show ?thesis by simp
qed

lemma start_of_next:
  "0 \<le> N \<Longrightarrow> start_of N (tid + 1) = start_of N tid + local_count_of N tid"
  by (simp add: start_nonneg_count local_count_nonneg_count min_def algebra_simps)

lemma local_count_ge0: "0 \<le> N \<Longrightarrow> 0 \<le> local_count_of N tid"
  by (simp add: local_count_nonneg_count pos_imp_zdiv_nonneg_iff)

lemma start_of_mono_step: "0 \<le> N \<Longrightarrow> start_of N tid \<le> start_of N (tid + 1)"
  using local_count_ge0 [of N tid] by (simp add: start_of_next)

lemma start_of_mono_nat:
  "0 \<le> N \<Longrightarrow> start_of N tid \<le> start_of N (tid + int k)"
proof (induction k)
  case 0
  then show ?case by simp
next
  case (Suc k)
  have step: "start_of N (tid + int k) \<le> start_of N (tid + int k + 1)"
    using Suc.prems by (rule start_of_mono_step)
  have eq: "tid + int (Suc k) = tid + int k + 1"
    by simp
  have "start_of N tid \<le> start_of N (tid + int k)"
    using Suc by simp
  then show ?case
    unfolding eq using step by (rule order_trans)
qed

lemma start_of_mono: "0 \<le> N \<Longrightarrow> a \<le> b \<Longrightarrow> start_of N a \<le> start_of N b"
  using start_of_mono_nat [of N a "nat (b - a)"] by simp

lemma worker_range_end: "0 \<le> N \<Longrightarrow> worker_range N tid = {start_of N tid ..< start_of N (tid + 1)}"
  by (simp add: worker_range_def start_of_next)

lemma worker_range_disjoint:
  assumes "0 \<le> N" and "a < b"
  shows "worker_range N a \<inter> worker_range N b = {}"
proof -
  have "start_of N (a + 1) \<le> start_of N b"
    using assms by (intro start_of_mono) simp_all
  then show ?thesis
    using assms by (auto simp: worker_range_end)
qed

lemma worker_range_subset:
  assumes "0 \<le> N" and "0 \<le> tid" and "tid < 64"
  shows "worker_range N tid \<subseteq> {0 ..< N}"
proof -
  have "start_of N 0 \<le> start_of N tid" and "start_of N (tid + 1) \<le> start_of N 64"
    using assms by (auto intro!: start_of_mono)
  then show ?thesis
    using assms by (auto simp: worker_range_end start_of_zero start_of_last)
qed

lemma worker_range_cover_nat:
  "0 \<le> N \<Longrightarrow> (\<Union>tid \<in> {0 ..< int k}. worker_range N tid) = {0 ..< start_of N (int k)}"
proof (induction k)
  case 0
  then show ?case by (simp add: start_of_zero)
next
  case (Suc k)
  have split: "{0 ..< int (Suc k)} = insert (int k) {0 ..< int k}"
    by auto
  have lo: "0 \<le> start_of N (int k)"
    using start_of_mono [of N 0 "int k"] Suc.prems by (simp add: start_of_zero)
  have up: "start_of N (int k) \<le> start_of N (int k + 1)"
    using Suc.prems by (rule start_of_mono_step)
  have ih: "(\<Union>tid \<in> {0 ..< int k}. worker_range N tid) = {0 ..< start_of N (int k)}"
    using Suc by simp
  have eq: "int (Suc k) = int k + 1"
    by simp
  have "(\<Union>tid \<in> {0 ..< int (Suc k)}. worker_range N tid)
          = worker_range N (int k) \<union> {0 ..< start_of N (int k)}"
    unfolding split using ih by simp
  also have "\<dots> = {0 ..< start_of N (int k + 1)}"
    using lo up Suc.prems by (auto simp: worker_range_end)
  finally show ?case
    unfolding eq .
qed

lemma worker_range_cover:
  "0 \<le> N \<Longrightarrow> (\<Union>tid \<in> {0 ..< SPNUM}. worker_range N tid) = {0 ..< N}"
  using worker_range_cover_nat [of N 64] by (simp add: SPNUM_def start_of_last)

lemma partition_fits_int32:
  assumes "0 \<le> N" and "N < 2 ^ 31" and "0 \<le> tid" and "tid < 64"
  shows "0 \<le> tid * c_div N SPNUM \<and> tid * c_div N SPNUM < 2 ^ 31
       \<and> 0 \<le> start_of N tid \<and> start_of N tid \<le> N
       \<and> 0 \<le> local_count_of N tid \<and> start_of N tid + local_count_of N tid \<le> N
       \<and> local_count_of N tid + BUFFSIZE < 2 ^ 31"
proof -
  have d: "c_div N SPNUM = N div 64"
    using assms by (simp add: c_div_nonneg SPNUM_def)
  have d0: "0 \<le> N div 64" and d1: "N div 64 < 2 ^ 25"
    using assms by simp_all
  have p0: "0 \<le> tid * (N div 64)"
    using assms d0 by simp
  have "tid * (N div 64) \<le> 63 * (N div 64)"
    using assms d0 by (intro mult_right_mono) simp_all
  then have p1: "tid * (N div 64) < 2 ^ 31"
    using d1 by simp
  have r: "worker_range N tid \<subseteq> {0 ..< N}"
    using assms by (intro worker_range_subset)
  have s0: "0 \<le> start_of N tid"
    using start_of_mono [of N 0 tid] assms by (simp add: start_of_zero)
  have s1: "start_of N tid + local_count_of N tid \<le> N"
    using start_of_mono [of N "tid + 1" 64] assms by (simp add: start_of_next start_of_last)
  have l0: "0 \<le> local_count_of N tid"
    using assms by (simp add: local_count_ge0)
  have "local_count_of N tid \<le> N div 64 + 1"
    using assms by (simp add: local_count_nonneg_count)
  then have l1: "local_count_of N tid + BUFFSIZE < 2 ^ 31"
    using d1 by (simp add: BUFFSIZE_def)
  show ?thesis
    using d p0 p1 s0 s1 l0 l1 by simp
qed

subsection \<open>The compute loops on the staging buffers\<close>

lemma simd_load_defined:
  assumes "0 \<le> i" and "i + 3 < BUFFSIZE"
    and "ls i = Some x0" and "ls (i + 1) = Some x1" and "ls (i + 2) = Some x2" and "ls (i + 3) = Some x3"
  shows "simd_load ls i = Some (V4 x0 x1 x2 x3)"
  using assms by (simp add: simd_load_def buf_read_def)

lemma simd_store_defined:
  assumes "0 \<le> i" and "i + 3 < BUFFSIZE"
  shows "simd_store (V4 x0 x1 x2 x3) ld i = Some (ld(i \<mapsto> x0, i + 1 \<mapsto> x1, i + 2 \<mapsto> x2, i + 3 \<mapsto> x3))"
  using assms by (simp add: buf_write_def)

lemma simd_step:
  assumes "0 \<le> i" and "i + 3 < BUFFSIZE" and "\<forall>k. i \<le> k \<and> k < i + 4 \<longrightarrow> ls k \<noteq> None"
  shows "\<exists>v. simd_load ls i = Some v
           \<and> simd_store (simd_mul mul v (simd_bcast al)) ld i = Some (scaled_buf mul al ls ld i (i + 4))"
proof -
  have "ls i \<noteq> None" "ls (i + 1) \<noteq> None" "ls (i + 2) \<noteq> None" "ls (i + 3) \<noteq> None"
    using assms(3) by simp_all
  then obtain x0 x1 x2 x3 where x: "ls i = Some x0" "ls (i + 1) = Some x1" "ls (i + 2) = Some x2" "ls (i + 3) = Some x3"
    by auto
  have ld: "simd_load ls i = Some (V4 x0 x1 x2 x3)"
    using assms(1,2) x by (rule simd_load_defined)
  have eq: "ld(i \<mapsto> mul x0 al, i + 1 \<mapsto> mul x1 al, i + 2 \<mapsto> mul x2 al, i + 3 \<mapsto> mul x3 al)
              = scaled_buf mul al ls ld i (i + 4)"
  proof
    fix k
    consider "k = i" | "k = i + 1" | "k = i + 2" | "k = i + 3" | "k < i \<or> i + 4 \<le> k"
      by linarith
    then show "(ld(i \<mapsto> mul x0 al, i + 1 \<mapsto> mul x1 al, i + 2 \<mapsto> mul x2 al, i + 3 \<mapsto> mul x3 al)) k
                 = scaled_buf mul al ls ld i (i + 4) k"
      using x by cases (auto simp: scaled_buf_def)
  qed
  have st: "simd_store (V4 (mul x0 al) (mul x1 al) (mul x2 al) (mul x3 al)) ld i
              = Some (scaled_buf mul al ls ld i (i + 4))"
    unfolding eq [symmetric] using assms(1,2) by (rule simd_store_defined)
  have "simd_mul mul (V4 x0 x1 x2 x3) (simd_bcast al) = V4 (mul x0 al) (mul x1 al) (mul x2 al) (mul x3 al)"
    by (simp add: simd_bcast_def)
  then show ?thesis
    using ld st by simp
qed

lemma scaled_buf_empty: "hi \<le> lo \<Longrightarrow> scaled_buf mul al ls ld lo hi = ld"
  by (rule ext) (auto simp: scaled_buf_def)

lemma scaled_buf_join:
  "lo \<le> mid \<Longrightarrow> mid \<le> hi \<Longrightarrow>
   scaled_buf mul al ls (scaled_buf mul al ls ld lo mid) mid hi = scaled_buf mul al ls ld lo hi"
  by (rule ext) (auto simp: scaled_buf_def)

lemma full_simd_loop_correct:
  assumes "valpha = simd_bcast al" and "0 \<le> i" and "i mod 4 = 0"
    and "\<forall>k. 0 \<le> k \<and> k < BUFFSIZE \<longrightarrow> ls k \<noteq> None"
  shows "full_simd_loop mul valpha i ls ld = Some (scaled_buf mul al ls ld i BUFFSIZE)"
  using assms
proof (induction mul valpha i ls ld rule: full_simd_loop.induct)
  case (1 mul valpha i ls ld)
  show ?case
  proof (cases "i < BUFFSIZE")
    case False
    then show ?thesis
      by (subst full_simd_loop.simps) (simp add: scaled_buf_empty)
  next
    case True
    have "i mod 4 = 0" "BUFFSIZE mod 4 = 0"
      using "1.prems" by (simp_all add: BUFFSIZE_def)
    with True have in_buf: "i + 3 < BUFFSIZE"
      by presburger
    have def4: "\<forall>k. i \<le> k \<and> k < i + 4 \<longrightarrow> ls k \<noteq> None"
      using "1.prems" in_buf by auto
    obtain v where v: "simd_load ls i = Some v"
      "simd_store (simd_mul mul v (simd_bcast al)) ld i = Some (scaled_buf mul al ls ld i (i + 4))"
      using simd_step [OF \<open>0 \<le> i\<close> in_buf def4, where mul = mul and al = al and ld = ld]
      by (elim exE conjE)
    have "full_simd_loop mul valpha (i + SIMDSIZE) ls (scaled_buf mul al ls ld i (i + 4))
            = Some (scaled_buf mul al ls (scaled_buf mul al ls ld i (i + 4)) (i + SIMDSIZE) BUFFSIZE)"
      using True v "1.prems" by (intro "1.IH") (simp_all add: SIMDSIZE_def)
    then have "full_simd_loop mul valpha i ls ld
            = Some (scaled_buf mul al ls (scaled_buf mul al ls ld i (i + 4)) (i + 4) BUFFSIZE)"
      using True v "1.prems"(1) by (subst full_simd_loop.simps) (simp add: SIMDSIZE_def)
    then show ?thesis
      using in_buf by (simp add: scaled_buf_join)
  qed
qed

lemma tail_simd_loop_correct:
  assumes "valpha = simd_bcast al" and "0 \<le> i" and "n \<le> BUFFSIZE"
    and "\<forall>k. 0 \<le> k \<and> k < n \<longrightarrow> ls k \<noteq> None"
  shows "\<exists>j. tail_simd_loop mul valpha n i ls ld = Some (j, scaled_buf mul al ls ld i j)
           \<and> i \<le> j \<and> (i \<le> n \<longrightarrow> j \<le> n)"
  using assms
proof (induction mul valpha n i ls ld rule: tail_simd_loop.induct)
  case (1 mul valpha n i ls ld)
  show ?case
  proof (cases "i + SIMDSIZE - 1 < n")
    case False
    then show ?thesis
      by (subst tail_simd_loop.simps) (simp add: scaled_buf_empty)
  next
    case True
    then have in_buf: "i + 3 < BUFFSIZE" and lt: "i + 3 < n"
      using "1.prems" by (simp_all add: SIMDSIZE_def)
    have def4: "\<forall>k. i \<le> k \<and> k < i + 4 \<longrightarrow> ls k \<noteq> None"
      using "1.prems" lt by auto
    obtain v where v: "simd_load ls i = Some v"
      "simd_store (simd_mul mul v (simd_bcast al)) ld i = Some (scaled_buf mul al ls ld i (i + 4))"
      using simd_step [OF \<open>0 \<le> i\<close> in_buf def4, where mul = mul and al = al and ld = ld]
      by (elim exE conjE)
    have "\<exists>j. tail_simd_loop mul valpha n (i + SIMDSIZE) ls (scaled_buf mul al ls ld i (i + 4))
            = Some (j, scaled_buf mul al ls (scaled_buf mul al ls ld i (i + 4)) (i + SIMDSIZE) j)
            \<and> i + SIMDSIZE \<le> j \<and> (i + SIMDSIZE \<le> n \<longrightarrow> j \<le> n)"
      using True v "1.prems" by (intro "1.IH") (simp_all add: SIMDSIZE_def)
    then obtain j where j: "tail_simd_loop mul valpha n (i + 4) ls (scaled_buf mul al ls ld i (i + 4))
            = Some (j, scaled_buf mul al ls (scaled_buf mul al ls ld i (i + 4)) (i + 4) j)"
        "i + 4 \<le> j" "j \<le> n"
      using lt by (auto simp: SIMDSIZE_def)
    have "tail_simd_loop mul valpha n i ls ld
            = Some (j, scaled_buf mul al ls (scaled_buf mul al ls ld i (i + 4)) (i + 4) j)"
      using True v j(1) "1.prems"(1) by (subst tail_simd_loop.simps) (simp add: SIMDSIZE_def)
    then show ?thesis
      using j(2,3) by (simp add: scaled_buf_join)
  qed
qed

lemma scalar_loop_correct:
  assumes "0 \<le> i" and "n \<le> BUFFSIZE"
    and "\<forall>k. i \<le> k \<and> k < n \<longrightarrow> ls k \<noteq> None"
  shows "scalar_loop mul al n i ls ld = Some (scaled_buf mul al ls ld i n)"
  using assms
proof (induction mul al n i ls ld rule: scalar_loop.induct)
  case (1 mul al n i ls ld)
  show ?case
  proof (cases "i < n")
    case False
    then show ?thesis
      by (subst scalar_loop.simps) (simp add: scaled_buf_empty)
  next
    case True
    then obtain x where x: "ls i = Some x"
      using "1.prems" by auto
    have rd: "buf_read ls i = Some x"
      using x True "1.prems" by (simp add: buf_read_def)
    have upd: "ld(i \<mapsto> mul x al) = scaled_buf mul al ls ld i (i + 1)"
      using x by (intro ext) (auto simp: scaled_buf_def)
    have wr: "buf_write ld i (mul x al) = Some (scaled_buf mul al ls ld i (i + 1))"
      using True "1.prems" by (simp add: buf_write_def upd)
    have "scalar_loop mul al n (i + 1) ls (scaled_buf mul al ls ld i (i + 1))
            = Some (scaled_buf mul al ls (scaled_buf mul al ls ld i (i + 1)) (i + 1) n)"
      using True rd wr "1.prems" by (intro "1.IH") simp_all
    then have "scalar_loop mul al n i ls ld
            = Some (scaled_buf mul al ls (scaled_buf mul al ls ld i (i + 1)) (i + 1) n)"
      using True rd wr by (subst scalar_loop.simps) simp
    then show ?thesis
      using True by (simp add: scaled_buf_join)
  qed
qed

lemma tail_compute_correct:
  assumes "0 \<le> n" and "n \<le> BUFFSIZE" and "\<forall>k. 0 \<le> k \<and> k < n \<longrightarrow> ls k \<noteq> None"
  shows "\<exists>j ld1. tail_simd_loop mul (simd_bcast al) n 0 ls ld = Some (j, ld1)
           \<and> scalar_loop mul al n j ls ld1 = Some (scaled_buf mul al ls ld 0 n)"
proof -
  obtain j where j: "tail_simd_loop mul (simd_bcast al) n 0 ls ld = Some (j, scaled_buf mul al ls ld 0 j)"
      "0 \<le> j" "j \<le> n"
    using tail_simd_loop_correct [OF refl order_refl assms(2,3), where mul = mul and ld = ld] assms(1)
    by auto
  have "scalar_loop mul al n j ls (scaled_buf mul al ls ld 0 j)
          = Some (scaled_buf mul al ls (scaled_buf mul al ls ld 0 j) j n)"
    using j assms by (intro scalar_loop_correct) auto
  then show ?thesis
    using j by (simp add: scaled_buf_join)
qed

subsection \<open>Transfers and the chunk loop\<close>

lemma dma_get_ok:
  assumes "d_op d = DMA_GET" and "d_size d = n * sizeof_float" and "0 \<le> n" and "n \<le> BUFFSIZE"
  shows "dma d ga b c =
           Some (\<lambda>k. if 0 \<le> k \<and> k < n then Some (gmem c (ga + k)) else b k,
                 c\<lparr>trace := trace c @ [DmaGet ga n]\<rparr>)"
  using assms by (simp add: dma_def sizeof_float_def)

lemma dma_put_ok:
  assumes "d_op d = DMA_PUT" and "d_size d = n * sizeof_float" and "0 \<le> n" and "n \<le> BUFFSIZE"
    and "\<forall>k. 0 \<le> k \<and> k < n \<longrightarrow> b k \<noteq> None"
  shows "dma d ga b c =
           Some (b, c\<lparr>gmem := (\<lambda>x. if ga \<le> x \<and> x < ga + n then the (b (x - ga)) else gmem c x),
                      trace := trace c @ [DmaPut ga n]\<rparr>)"
  using assms by (simp add: dma_def sizeof_float_def)

lemma put_of_scaled:
  assumes "ls' = (\<lambda>k. if 0 \<le> k \<and> k < n then Some (m (sp + off + k)) else ls k)"
  shows "(\<lambda>x. if dp + off \<le> x \<and> x < dp + off + n
               then the (scaled_buf mul al ls' ld 0 n (x - (dp + off))) else m x)
           = scal_block mul al m sp dp off (off + n)"
  by (rule ext) (auto simp: assms scal_block_def scaled_buf_def algebra_simps)

lemma scal_block_compose:
  assumes "no_clobber sp dp lc" and "0 \<le> lo" and "lo \<le> mid" and "mid \<le> hi" and "hi \<le> lc"
  shows "scal_block mul al (scal_block mul al m sp dp lo mid) sp dp mid hi
           = scal_block mul al m sp dp lo hi"
  using assms by (intro ext) (auto simp: scal_block_def no_clobber_def)

lemma scal_block_empty: "hi \<le> lo \<Longrightarrow> scal_block mul al m sp dp lo hi = m"
  by (rule ext) (auto simp: scal_block_def)

lemma scal_block_outside:
  "\<not> (dp + lo \<le> x \<and> x < dp + hi) \<Longrightarrow> scal_block mul al m sp dp lo hi x = m x"
  by (auto simp: scal_block_def)

lemma xfer_in_range_mono:
  "xfer_in_range sp dp lo hi e \<Longrightarrow> lo' \<le> lo \<Longrightarrow> hi \<le> hi' \<Longrightarrow> xfer_in_range sp dp lo' hi' e"
  by (cases e) auto

text \<open>One block of \<open>n\<close> elements at offset \<open>off\<close>: the in-transfer, then any computation that
  leaves the scaled cells in the destination buffer, then the out-transfer.\<close>

lemma block_get:
  assumes "d_op (dma_get_sscal_src c) = DMA_GET"
    and "d_size (dma_get_sscal_src c) = n * sizeof_float" and "0 \<le> n" and "n \<le> BUFFSIZE"
  shows "\<exists>ls' c1. dma (dma_get_sscal_src c) (sp + off) ls c = Some (ls', c1)
           \<and> ls' = (\<lambda>k. if 0 \<le> k \<and> k < n then Some (gmem c (sp + off + k)) else ls k)
           \<and> c1 = c\<lparr>trace := trace c @ [DmaGet (sp + off) n]\<rparr>"
  using dma_get_ok [OF assms] by simp

lemma block_put:
  assumes "d_op (dma_put_sscal_dst c1) = DMA_PUT"
    and "d_size (dma_put_sscal_dst c1) = n * sizeof_float" and "0 \<le> n" and "n \<le> BUFFSIZE"
    and "ls' = (\<lambda>k. if 0 \<le> k \<and> k < n then Some (gmem c1 (sp + off + k)) else ls k)"
    and "ld' = scaled_buf mul al ls' ld 0 n"
  shows "dma (dma_put_sscal_dst c1) (dp + off) ld' c1
           = Some (ld', c1\<lparr>gmem := scal_block mul al (gmem c1) sp dp off (off + n),
                          trace := trace c1 @ [DmaPut (dp + off) n]\<rparr>)"
proof -
  have "\<forall>k. 0 \<le> k \<and> k < n \<longrightarrow> ld' k \<noteq> None"
    by (simp add: assms(6) scaled_buf_def)
  from dma_put_ok [OF assms(1-4) this]
  have "dma (dma_put_sscal_dst c1) (dp + off) ld' c1
          = Some (ld', c1\<lparr>gmem := (\<lambda>x. if dp + off \<le> x \<and> x < dp + off + n
                                        then the (ld' (x - (dp + off))) else gmem c1 x),
                         trace := trace c1 @ [DmaPut (dp + off) n]\<rparr>)" .
  then show ?thesis
    unfolding assms(6) put_of_scaled [OF assms(5)] .
qed


lemma chunk_loop_effect:
  assumes "valpha = simd_bcast al"
    and "d_op (dma_get_sscal_src c) = DMA_GET"
    and "d_size (dma_get_sscal_src c) = BUFFSIZE * sizeof_float"
    and "d_op (dma_put_sscal_dst c) = DMA_PUT"
    and "d_size (dma_put_sscal_dst c) = BUFFSIZE * sizeof_float"
    and "0 \<le> off"
  shows "\<exists>off' ls' ld' c' evs.
           chunk_loop mul valpha sp dp lc off ls ld c = Some (off', ls', ld', c')
         \<and> off \<le> off' \<and> (off \<le> lc \<longrightarrow> off' \<le> lc) \<and> lc - off' < BUFFSIZE
         \<and> (lc - off < BUFFSIZE \<longrightarrow> off' = off \<and> c' = c)
         \<and> dma_get_sscal_src c' = dma_get_sscal_src c
         \<and> dma_put_sscal_dst c' = dma_put_sscal_dst c
         \<and> trace c' = trace c @ evs \<and> (\<forall>e \<in> set evs. xfer_in_range sp dp off off' e)
         \<and> (\<forall>x. \<not> (dp + off \<le> x \<and> x < dp + off') \<longrightarrow> gmem c' x = gmem c x)
         \<and> (no_clobber sp dp lc \<longrightarrow> gmem c' = scal_block mul al (gmem c) sp dp off off')"
  using assms
proof (induction mul valpha sp dp lc off ls ld c rule: chunk_loop.induct)
  case (1 mul valpha sp dp lc off ls ld c)
  show ?case
  proof (cases "off + BUFFSIZE - 1 < lc")
    case False
    then have "chunk_loop mul valpha sp dp lc off ls ld c = Some (off, ls, ld, c)"
      by (subst chunk_loop.simps) simp
    moreover have "lc - off < BUFFSIZE"
      using False by simp
    ultimately show ?thesis
      by (simp add: scal_block_empty)
  next
    case True
    have B: "0 \<le> BUFFSIZE" "BUFFSIZE \<le> BUFFSIZE" "0 < BUFFSIZE"
      by (simp_all add: BUFFSIZE_def)
    define ls1 where "ls1 = (\<lambda>k. if 0 \<le> k \<and> k < BUFFSIZE then Some (gmem c (sp + off + k)) else ls k)"
    define c1 where "c1 = c\<lparr>trace := trace c @ [DmaGet (sp + off) BUFFSIZE]\<rparr>"
    define ld1 where "ld1 = scaled_buf mul al ls1 ld 0 BUFFSIZE"
    define c2 where "c2 = c1\<lparr>gmem := scal_block mul al (gmem c1) sp dp off (off + BUFFSIZE),
                             trace := trace c1 @ [DmaPut (dp + off) BUFFSIZE]\<rparr>"
    have get: "dma (dma_get_sscal_src c) (sp + off) ls c = Some (ls1, c1)"
      using block_get [OF "1.prems"(2,3) B(1,2), of sp off ls] by (simp add: ls1_def c1_def)
    have "\<forall>k. 0 \<le> k \<and> k < BUFFSIZE \<longrightarrow> ls1 k \<noteq> None"
      by (simp add: ls1_def)
    then have comp: "full_simd_loop mul valpha 0 ls1 ld = Some ld1"
      unfolding ld1_def using "1.prems"(1) by (intro full_simd_loop_correct) simp_all
    have put: "dma (dma_put_sscal_dst c1) (dp + off) ld1 c1 = Some (ld1, c2)"
      unfolding c2_def
    proof (rule block_put [where ls = ls and ld = ld and ls' = ls1])
      show "d_op (dma_put_sscal_dst c1) = DMA_PUT"
        and "d_size (dma_put_sscal_dst c1) = BUFFSIZE * sizeof_float"
        using "1.prems"(4,5) by (simp_all add: c1_def)
      show "ls1 = (\<lambda>k. if 0 \<le> k \<and> k < BUFFSIZE then Some (gmem c1 (sp + off + k)) else ls k)"
        unfolding ls1_def c1_def by (simp cong: if_cong)
      show "ld1 = scaled_buf mul al ls1 ld 0 BUFFSIZE"
        by (rule ld1_def)
    qed (rule B)+
    have desc2: "d_op (dma_get_sscal_src c2) = DMA_GET"
      "d_size (dma_get_sscal_src c2) = BUFFSIZE * sizeof_float"
      "d_op (dma_put_sscal_dst c2) = DMA_PUT"
      "d_size (dma_put_sscal_dst c2) = BUFFSIZE * sizeof_float"
      using "1.prems"(2-5) by (simp_all add: c2_def c1_def)
    have off2: "0 \<le> off + BUFFSIZE"
      using "1.prems"(6) B by simp
    from "1.IH" [OF True get refl comp put refl "1.prems"(1) desc2 off2]
    obtain off' ls' ld' c' evs where
      r: "chunk_loop mul valpha sp dp lc (off + BUFFSIZE) ls1 ld1 c2 = Some (off', ls', ld', c')"
      and o: "off + BUFFSIZE \<le> off'" "off + BUFFSIZE \<le> lc \<longrightarrow> off' \<le> lc" "lc - off' < BUFFSIZE"
      and d: "dma_get_sscal_src c' = dma_get_sscal_src c2" "dma_put_sscal_dst c' = dma_put_sscal_dst c2"
      and t: "trace c' = trace c2 @ evs" "\<forall>e \<in> set evs. xfer_in_range sp dp (off + BUFFSIZE) off' e"
      and f: "\<forall>x. \<not> (dp + (off + BUFFSIZE) \<le> x \<and> x < dp + off') \<longrightarrow> gmem c' x = gmem c2 x"
      and v: "no_clobber sp dp lc \<longrightarrow> gmem c' = scal_block mul al (gmem c2) sp dp (off + BUFFSIZE) off'"
      by blast
    have res: "chunk_loop mul valpha sp dp lc off ls ld c = Some (off', ls', ld', c')"
      using True get comp put r by (subst chunk_loop.simps) simp
    have le: "off' \<le> lc"
      using o(2) True by simp
    have g2: "gmem c2 = scal_block mul al (gmem c) sp dp off (off + BUFFSIZE)"
      by (simp add: c2_def c1_def)
    have tr: "trace c' = trace c @ ([DmaGet (sp + off) BUFFSIZE, DmaPut (dp + off) BUFFSIZE] @ evs)"
      using t(1) by (simp add: c2_def c1_def)
    have ev: "\<forall>e \<in> set ([DmaGet (sp + off) BUFFSIZE, DmaPut (dp + off) BUFFSIZE] @ evs).
                xfer_in_range sp dp off off' e"
    proof
      fix e
      assume "e \<in> set ([DmaGet (sp + off) BUFFSIZE, DmaPut (dp + off) BUFFSIZE] @ evs)"
      then consider "e = DmaGet (sp + off) BUFFSIZE" | "e = DmaPut (dp + off) BUFFSIZE" | "e \<in> set evs"
        by auto
      then show "xfer_in_range sp dp off off' e"
      proof cases
        case 3
        then have "xfer_in_range sp dp (off + BUFFSIZE) off' e"
          using t(2) by simp
        then show ?thesis
          by (rule xfer_in_range_mono) (use B in simp_all)
      qed (use o(1) B in simp_all)
    qed
    have fr: "\<forall>x. \<not> (dp + off \<le> x \<and> x < dp + off') \<longrightarrow> gmem c' x = gmem c x"
    proof (intro allI impI)
      fix x
      assume out: "\<not> (dp + off \<le> x \<and> x < dp + off')"
      then have "gmem c' x = gmem c2 x"
        using f B by auto
      also have "\<dots> = gmem c x"
        unfolding g2 using out o(1) by (intro scal_block_outside) auto
      finally show "gmem c' x = gmem c x" .
    qed
    have val: "no_clobber sp dp lc \<longrightarrow> gmem c' = scal_block mul al (gmem c) sp dp off off'"
    proof
      assume nc: "no_clobber sp dp lc"
      then have "gmem c' = scal_block mul al (gmem c2) sp dp (off + BUFFSIZE) off'"
        using v by simp
      also have "\<dots> = scal_block mul al (gmem c) sp dp off off'"
        unfolding g2 using nc "1.prems"(6) B o(1) le by (intro scal_block_compose) simp_all
      finally show "gmem c' = scal_block mul al (gmem c) sp dp off off'" .
    qed
    have nb: "\<not> lc - off < BUFFSIZE"
      using True by simp
    have dd: "dma_get_sscal_src c' = dma_get_sscal_src c" "dma_put_sscal_dst c' = dma_put_sscal_dst c"
      using d by (simp_all add: c2_def c1_def)
    have oo: "off \<le> off'"
      using o(1) B by simp
    show ?thesis
      using res oo le o(3) nb dd tr ev fr val by blast
  qed
qed

subsection \<open>The tail and the whole worker\<close>

lemma tail_chunk_effect:
  assumes "d_op (dma_get_sscal_src c) = DMA_GET" and "d_op (dma_put_sscal_dst c) = DMA_PUT"
    and "off < lc" and "lc - off \<le> BUFFSIZE"
  shows "\<exists>c'. tail_chunk mul al (simd_bcast al) sp dp lc off ls ld c = Some c'
           \<and> gmem c' = scal_block mul al (gmem c) sp dp off lc
           \<and> trace c' = trace c @ [DmaGet (sp + off) (lc - off), DmaPut (dp + off) (lc - off)]
           \<and> d_op (dma_get_sscal_src c') = DMA_GET \<and> d_op (dma_put_sscal_dst c') = DMA_PUT"
proof -
  define n where "n = lc - off"
  have n: "0 \<le> n" "n \<le> BUFFSIZE"
    using assms(3,4) by (simp_all add: n_def)
  define c1 where "c1 = c\<lparr>dma_get_sscal_src := dma_set_size (dma_get_sscal_src c) (n * sizeof_float)\<rparr>"
  define ls1 where "ls1 = (\<lambda>k. if 0 \<le> k \<and> k < n then Some (gmem c1 (sp + off + k)) else ls k)"
  define c2 where "c2 = c1\<lparr>trace := trace c1 @ [DmaGet (sp + off) n]\<rparr>"
  define ld1 where "ld1 = scaled_buf mul al ls1 ld 0 n"
  define c3 where "c3 = c2\<lparr>dma_put_sscal_dst := dma_set_size (dma_put_sscal_dst c2) (n * sizeof_float)\<rparr>"
  define c4 where "c4 = c3\<lparr>gmem := scal_block mul al (gmem c3) sp dp off (off + n),
                           trace := trace c3 @ [DmaPut (dp + off) n]\<rparr>"
  have g1: "d_op (dma_get_sscal_src c1) = DMA_GET" "d_size (dma_get_sscal_src c1) = n * sizeof_float"
    using assms(1) by (simp_all add: c1_def dma_set_size_def)
  have get: "dma (dma_get_sscal_src c1) (sp + off) ls c1 = Some (ls1, c2)"
    using block_get [OF g1 n, of sp off ls] by (simp add: ls1_def c2_def)
  have "\<forall>k. 0 \<le> k \<and> k < n \<longrightarrow> ls1 k \<noteq> None"
    by (simp add: ls1_def)
  from tail_compute_correct [OF n this, of mul al ld]
  obtain j ld0 where comp: "tail_simd_loop mul (simd_bcast al) n 0 ls1 ld = Some (j, ld0)"
      "scalar_loop mul al n j ls1 ld0 = Some ld1"
    unfolding ld1_def by blast
  have p3: "d_op (dma_put_sscal_dst c3) = DMA_PUT" "d_size (dma_put_sscal_dst c3) = n * sizeof_float"
    using assms(2) by (simp_all add: c3_def c2_def c1_def dma_set_size_def)
  have ls1': "ls1 = (\<lambda>k. if 0 \<le> k \<and> k < n then Some (gmem c3 (sp + off + k)) else ls k)"
    unfolding ls1_def c3_def c2_def by (simp cong: if_cong)
  have put: "dma (dma_put_sscal_dst c3) (dp + off) ld1 c3 = Some (ld1, c4)"
    unfolding c4_def using p3 n ls1' ld1_def by (rule block_put)
  have res: "tail_chunk mul al (simd_bcast al) sp dp lc off ls ld c = Some c4"
    unfolding tail_chunk_def Let_def n_def [symmetric] c1_def [symmetric]
    by (simp only: get comp put c3_def [symmetric] option.case prod.case)
  have "gmem c4 = scal_block mul al (gmem c) sp dp off lc"
    by (simp add: c4_def c3_def c2_def c1_def n_def)
  moreover have "trace c4 = trace c @ [DmaGet (sp + off) (lc - off), DmaPut (dp + off) (lc - off)]"
    by (simp add: c4_def c3_def c2_def c1_def n_def)
  moreover have "d_op (dma_get_sscal_src c4) = DMA_GET" "d_op (dma_put_sscal_dst c4) = DMA_PUT"
    using assms(1,2) by (simp_all add: c4_def c3_def c2_def c1_def dma_set_size_def)
  ultimately show ?thesis
    using res by simp
qed


lemma worker_effect:
  fixes mul :: "'a \<Rightarrow> 'a \<Rightarrow> 'a" and para :: "'a sscalPara" and c :: "'a cpe" and tid :: int
  defines "lc \<equiv> local_count_of (count para) tid"
    and "sp \<equiv> src para + start_of (count para) tid"
    and "dp \<equiv> dst para + start_of (count para) tid"
    and "nb \<equiv> BUFFSIZE * sizeof_float"
  shows "\<exists>c' evs. sw_slave_sscal_f mul para tid c = Some c'
           \<and> trace c' = trace c @ [LdmMalloc nb, LdmMalloc nb] @ evs @ [LdmFree nb, LdmFree nb]
           \<and> (\<forall>e \<in> set evs. xfer_in_range sp dp 0 lc e)
           \<and> (lc \<le> 0 \<longrightarrow> evs = [])
           \<and> (\<forall>x. \<not> (dp \<le> x \<and> x < dp + lc) \<longrightarrow> gmem c' x = gmem c x)
           \<and> (no_clobber sp dp lc \<longrightarrow> gmem c' = scal_block mul (alpha para) (gmem c) sp dp 0 lc)
           \<and> d_op (dma_get_sscal_src c') = DMA_GET \<and> d_op (dma_put_sscal_dst c') = DMA_PUT
           \<and> (lc < BUFFSIZE \<longrightarrow> gmem c' = scal_block mul (alpha para) (gmem c) sp dp 0 lc)"
proof -
  define al where "al = alpha para"
  define c1 where "c1 = c\<lparr>trace := trace c @ [LdmMalloc nb]\<rparr>"
  define c2 where "c2 = c1\<lparr>trace := trace c1 @ [LdmMalloc nb]\<rparr>"
  define c3 where "c3 = c2\<lparr>dma_get_sscal_src := dma_set_op (dma_get_sscal_src c2) DMA_GET\<rparr>"
  define c4 where "c4 = c3\<lparr>dma_put_sscal_dst := dma_set_op (dma_put_sscal_dst c3) DMA_PUT\<rparr>"
  define c5 where "c5 = c4\<lparr>dma_get_sscal_src := dma_set_size (dma_get_sscal_src c4) nb\<rparr>"
  define c6 where "c6 = c5\<lparr>dma_put_sscal_dst := dma_set_size (dma_put_sscal_dst c5) nb\<rparr>"
  note cs = c6_def c5_def c4_def c3_def c2_def c1_def
  have run: "sw_slave_sscal_f mul para tid c =
      (case chunk_loop mul (simd_bcast al) sp dp lc 0 Map.empty Map.empty c6 of
         None \<Rightarrow> None
       | Some (off, ls, ld, c7) \<Rightarrow>
          (case (if off < lc then tail_chunk mul al (simd_bcast al) sp dp lc off ls ld c7
                 else Some c7) of
             None \<Rightarrow> None
           | Some c8 \<Rightarrow> Some (ldm_free nb (ldm_free nb c8))))"
    unfolding sw_slave_sscal_f_def ldm_malloc_def Let_def prod.case cs lc_def sp_def dp_def
      nb_def al_def ..
  have d6: "d_op (dma_get_sscal_src c6) = DMA_GET"
    "d_size (dma_get_sscal_src c6) = BUFFSIZE * sizeof_float"
    "d_op (dma_put_sscal_dst c6) = DMA_PUT"
    "d_size (dma_put_sscal_dst c6) = BUFFSIZE * sizeof_float"
    by (simp_all add: cs dma_set_op_def dma_set_size_def nb_def)
  have g6: "gmem c6 = gmem c" and t6: "trace c6 = trace c @ [LdmMalloc nb, LdmMalloc nb]"
    by (simp_all add: cs)
  from chunk_loop_effect [OF refl d6 order_refl, where mul = mul and sp = sp and dp = dp
      and lc = lc and ls = Map.empty and ld = Map.empty and al = al]
  obtain off ls ld c7 evs1 where
    r7: "chunk_loop mul (simd_bcast al) sp dp lc 0 Map.empty Map.empty c6 = Some (off, ls, ld, c7)"
    and o: "0 \<le> off" "0 \<le> lc \<longrightarrow> off \<le> lc" "lc - off < BUFFSIZE"
    and z: "lc - 0 < BUFFSIZE \<longrightarrow> off = 0 \<and> c7 = c6"
    and d7: "dma_get_sscal_src c7 = dma_get_sscal_src c6" "dma_put_sscal_dst c7 = dma_put_sscal_dst c6"
    and t7: "trace c7 = trace c6 @ evs1" "\<forall>e \<in> set evs1. xfer_in_range sp dp 0 off e"
    and f7: "\<forall>x. \<not> (dp + 0 \<le> x \<and> x < dp + off) \<longrightarrow> gmem c7 x = gmem c6 x"
    and v7: "no_clobber sp dp lc \<longrightarrow> gmem c7 = scal_block mul al (gmem c6) sp dp 0 off"
    by blast
  have op7: "d_op (dma_get_sscal_src c7) = DMA_GET" "d_op (dma_put_sscal_dst c7) = DMA_PUT"
    using d7 d6 by simp_all
  have neg: "lc \<le> 0 \<Longrightarrow> off = 0 \<and> c7 = c6"
    using z by (simp add: BUFFSIZE_def)
  then have ev1_nil: "lc \<le> 0 \<Longrightarrow> evs1 = []"
    using t7(1) by simp
  have off_le: "0 \<le> lc \<Longrightarrow> off \<le> lc"
    using o(2) by simp
  have "\<exists>c8 evs2. (if off < lc then tail_chunk mul al (simd_bcast al) sp dp lc off ls ld c7
                     else Some c7) = Some c8
          \<and> trace c8 = trace c7 @ evs2 \<and> (\<forall>e \<in> set evs2. xfer_in_range sp dp 0 lc e)
          \<and> (lc \<le> 0 \<longrightarrow> evs2 = [])
          \<and> gmem c8 = scal_block mul al (gmem c7) sp dp off lc
          \<and> d_op (dma_get_sscal_src c8) = DMA_GET \<and> d_op (dma_put_sscal_dst c8) = DMA_PUT"
  proof (cases "off < lc")
    case True
    have "lc - off \<le> BUFFSIZE"
      using o(3) by simp
    from tail_chunk_effect [OF op7 True this, where mul = mul and al = al and sp = sp and dp = dp
      and ls = ls and ld = ld]
    obtain c8 where c8: "tail_chunk mul al (simd_bcast al) sp dp lc off ls ld c7 = Some c8"
      "gmem c8 = scal_block mul al (gmem c7) sp dp off lc"
      "trace c8 = trace c7 @ [DmaGet (sp + off) (lc - off), DmaPut (dp + off) (lc - off)]"
      "d_op (dma_get_sscal_src c8) = DMA_GET" "d_op (dma_put_sscal_dst c8) = DMA_PUT"
      by blast
    have "\<forall>e \<in> set [DmaGet (sp + off) (lc - off), DmaPut (dp + off) (lc - off)].
            xfer_in_range sp dp 0 lc e"
      using True o(1) by simp
    moreover have "\<not> lc \<le> 0"
      using True o(1) by simp
    ultimately show ?thesis
      using True c8 by auto
  next
    case False
    then have "scal_block mul al (gmem c7) sp dp off lc = gmem c7"
      by (intro scal_block_empty) simp
    then show ?thesis
      using False op7 by simp
  qed
  then obtain c8 evs2 where
    r8: "(if off < lc then tail_chunk mul al (simd_bcast al) sp dp lc off ls ld c7 else Some c7) = Some c8"
    and t8: "trace c8 = trace c7 @ evs2" "\<forall>e \<in> set evs2. xfer_in_range sp dp 0 lc e"
      "lc \<le> 0 \<longrightarrow> evs2 = []"
    and g8: "gmem c8 = scal_block mul al (gmem c7) sp dp off lc"
    and op8: "d_op (dma_get_sscal_src c8) = DMA_GET" "d_op (dma_put_sscal_dst c8) = DMA_PUT"
    by blast
  define c' where "c' = ldm_free nb (ldm_free nb c8)"
  have res: "sw_slave_sscal_f mul para tid c = Some c'"
    unfolding run c'_def by (simp only: r7 r8 option.case prod.case)
  have tr: "trace c' = trace c @ [LdmMalloc nb, LdmMalloc nb] @ (evs1 @ evs2) @ [LdmFree nb, LdmFree nb]"
    by (simp add: c'_def ldm_free_def t8(1) t7(1) t6)
  have ev: "\<forall>e \<in> set (evs1 @ evs2). xfer_in_range sp dp 0 lc e"
  proof
    fix e
    assume "e \<in> set (evs1 @ evs2)"
    then consider "e \<in> set evs1" | "e \<in> set evs2"
      by auto
    then show "xfer_in_range sp dp 0 lc e"
    proof cases
      case 1
      then have in1: "xfer_in_range sp dp 0 off e"
        using t7(2) by simp
      have "evs1 \<noteq> []"
        using 1 by auto
      then have "0 \<le> lc"
        using ev1_nil by force
      then have "off \<le> lc"
        by (rule off_le)
      with in1 show ?thesis
        by (rule xfer_in_range_mono [OF _ order_refl])
    next
      case 2
      then show ?thesis
        using t8(2) by simp
    qed
  qed
  have nil: "lc \<le> 0 \<longrightarrow> evs1 @ evs2 = []"
    using ev1_nil t8(3) by simp
  have gm: "gmem c' = gmem c8"
    by (simp add: c'_def ldm_free_def)
  have fr: "\<forall>x. \<not> (dp \<le> x \<and> x < dp + lc) \<longrightarrow> gmem c' x = gmem c x"
  proof (intro allI impI)
    fix x
    assume out: "\<not> (dp \<le> x \<and> x < dp + lc)"
    have "gmem c' x = gmem c7 x"
      unfolding gm g8 using out o(1) by (intro scal_block_outside) auto
    also have "\<dots> = gmem c6 x"
    proof (cases "0 \<le> lc")
      case True
      then show ?thesis
        using f7 out off_le by auto
    next
      case False
      then show ?thesis
        using neg by simp
    qed
    finally show "gmem c' x = gmem c x"
      by (simp add: g6)
  qed
  have val: "no_clobber sp dp lc \<longrightarrow> gmem c' = scal_block mul al (gmem c) sp dp 0 lc"
  proof
    assume nc: "no_clobber sp dp lc"
    then have g7: "gmem c7 = scal_block mul al (gmem c) sp dp 0 off"
      using v7 g6 by simp
    show "gmem c' = scal_block mul al (gmem c) sp dp 0 lc"
    proof (cases "0 \<le> lc")
      case True
      show ?thesis
        unfolding gm g8 g7
        by (rule scal_block_compose [OF nc order_refl o(1) off_le [OF True] order_refl])
    next
      case False
      then have "off = 0" "lc \<le> 0"
        using neg by simp_all
      then show ?thesis
        unfolding gm g8 g7 by (simp add: scal_block_empty)
    qed
  qed
  have op': "d_op (dma_get_sscal_src c') = DMA_GET" "d_op (dma_put_sscal_dst c') = DMA_PUT"
    using op8 by (simp_all add: c'_def ldm_free_def)
  have one: "lc < BUFFSIZE \<longrightarrow> gmem c' = scal_block mul al (gmem c) sp dp 0 lc"
  proof
    assume "lc < BUFFSIZE"
    then have "off = 0" "c7 = c6"
      using z by simp_all
    then show "gmem c' = scal_block mul al (gmem c) sp dp 0 lc"
      unfolding gm g8 by (simp add: g6)
  qed
  show ?thesis
    using res tr ev nil fr val op' one unfolding al_def by blast
qed

subsection \<open>The population of workers\<close>

lemma xfer_in_range_shift:
  "xfer_in_range (s + k) (d + k) 0 n e = xfer_in_range s d k (k + n) e"
  by (cases e) auto

lemma chunk_loop_remainder:
  "chunk_loop mul valpha sp dp lc off ls ld c = Some (off', ls', ld', c')
     \<Longrightarrow> off \<le> off' \<and> lc - off' < BUFFSIZE"
proof (induction mul valpha sp dp lc off ls ld c rule: chunk_loop.induct)
  case (1 mul valpha sp dp lc off ls ld c)
  show ?case
  proof (cases "off + BUFFSIZE - 1 < lc")
    case False
    then show ?thesis
      using "1.prems" by (subst (asm) chunk_loop.simps) auto
  next
    case True
    from "1.prems" True obtain ls1 c1 ld1 ld2 c2 where
      s: "dma (dma_get_sscal_src c) (sp + off) ls c = Some (ls1, c1)"
         "full_simd_loop mul valpha 0 ls1 ld = Some ld1"
         "dma (dma_put_sscal_dst c1) (dp + off) ld1 c1 = Some (ld2, c2)"
         "chunk_loop mul valpha sp dp lc (off + BUFFSIZE) ls1 ld2 c2 = Some (off', ls', ld', c')"
      by (subst (asm) chunk_loop.simps) (auto split: option.splits)
    from "1.IH" [OF True s(1) refl s(2) s(3) refl s(4)]
    show ?thesis
      by (simp add: BUFFSIZE_def)
  qed
qed

lemma local_count_of_zero_count: "0 \<le> tid \<Longrightarrow> local_count_of 0 tid = 0"
  by (simp add: local_count_nonneg_count)

lemma scaled_on_empty: "scaled_on mul al m s d {} = m"
  by (simp add: scaled_on_def)

lemma scaled_on_union:
  assumes "no_clobber s d N" and "R1 \<inter> R2 = {}" and "R1 \<subseteq> {0 ..< N}" and "R2 \<subseteq> {0 ..< N}"
  shows "scaled_on mul al (scaled_on mul al m s d R1) s d R2 = scaled_on mul al m s d (R1 \<union> R2)"
proof
  fix x
  show "scaled_on mul al (scaled_on mul al m s d R1) s d R2 x = scaled_on mul al m s d (R1 \<union> R2) x"
  proof (cases "x - d \<in> R2")
    case False
    then show ?thesis
      by (simp add: scaled_on_def)
  next
    case True
    then have b: "0 \<le> x - d" "x - d < N" and n1: "x - d \<notin> R1"
      using assms(2,4) by auto
    have "s + (x - d) - d \<notin> R1"
    proof (cases "s = d")
      case True
      then show ?thesis
        using n1 by simp
    next
      case False
      then have "s + N \<le> d \<or> d + N \<le> s"
        using assms(1) by (simp add: no_clobber_def)
      then have "s + (x - d) - d < 0 \<or> N \<le> s + (x - d) - d"
        using b by linarith
      then show ?thesis
        using assms(3) by auto
    qed
    then show ?thesis
      using True by (simp add: scaled_on_def)
  qed
qed

lemma scal_block_is_scaled_on:
  "scal_block mul al m (s + k) (d + k) 0 n = scaled_on mul al m s d {k ..< k + n}"
  by (rule ext) (auto simp: scal_block_def scaled_on_def algebra_simps)

lemma no_clobber_worker:
  assumes "no_clobber s d N" and "0 \<le> k" and "k + n \<le> N" and "0 \<le> n"
  shows "no_clobber (s + k) (d + k) n"
  using assms by (auto simp: no_clobber_def)

lemma run_worker_effect:
  fixes mul :: "'a \<Rightarrow> 'a \<Rightarrow> 'a" and para :: "'a sscalPara" and M :: "'a machine"
  assumes "0 \<le> count para" and "0 \<le> tid" and "tid < 64"
    and "no_clobber (src para) (dst para) (count para)"
  shows "\<exists>M'. run_worker (sw_slave_sscal_f mul) para M tid = Some M'
           \<and> mem M' = scaled_on mul (alpha para) (mem M) (src para) (dst para)
                         (worker_range (count para) tid)"
proof -
  define N where "N = count para"
  define k where "k = start_of N tid"
  define n where "n = local_count_of N tid"
  define c where "c = \<lparr>gmem = mem M, dma_get_sscal_src = fst (tls M tid),
                        dma_put_sscal_dst = snd (tls M tid), trace = []\<rparr>"
  have N: "0 \<le> N"
    using assms(1) by (simp add: N_def)
  have "worker_range N tid \<subseteq> {0 ..< N}"
    using N assms(2,3) by (rule worker_range_subset)
  moreover have n0: "0 \<le> n"
    unfolding n_def using N by (rule local_count_ge0)
  ultimately have b: "0 \<le> k" "k + n \<le> N"
    using start_of_mono [OF N, of 0 tid] start_of_mono [OF N, of "tid + 1" 64] assms(2,3) N
    by (simp_all add: k_def n_def start_of_zero start_of_last start_of_next)
  have nc: "no_clobber (src para + k) (dst para + k) n"
    using assms(4) b n0 unfolding N_def [symmetric] by (rule no_clobber_worker)
  from worker_effect [of mul para tid c]
  obtain c' where r: "sw_slave_sscal_f mul para tid c = Some c'"
    and v: "gmem c' = scal_block mul (alpha para) (gmem c) (src para + k) (dst para + k) 0 n"
    using nc unfolding k_def n_def N_def by blast
  have "gmem c' = scaled_on mul (alpha para) (mem M) (src para) (dst para) (worker_range N tid)"
    unfolding v scal_block_is_scaled_on by (simp add: c_def worker_range_def k_def n_def)
  then show ?thesis
    using r by (simp add: run_worker_def c_def [symmetric] N_def)
qed

lemma run_workers_effect:
  fixes mul :: "'a \<Rightarrow> 'a \<Rightarrow> 'a" and para :: "'a sscalPara" and M :: "'a machine"
  assumes "0 \<le> count para" and "no_clobber (src para) (dst para) (count para)"
    and "distinct ids" and "set ids \<subseteq> {0 ..< SPNUM}"
  shows "\<exists>M'. run_workers (sw_slave_sscal_f mul) para M ids = Some M'
           \<and> mem M' = scaled_on mul (alpha para) (mem M) (src para) (dst para)
                         (\<Union>tid \<in> set ids. worker_range (count para) tid)"
  using assms(3,4)
proof (induction ids arbitrary: M)
  case Nil
  then show ?case
    by (simp add: scaled_on_empty)
next
  case (Cons tid ids)
  define N where "N = count para"
  have N: "0 \<le> N"
    using assms(1) by (simp add: N_def)
  have t: "0 \<le> tid" "tid < 64" and nin: "tid \<notin> set ids"
    using Cons.prems by (simp_all add: SPNUM_def)
  from run_worker_effect [OF assms(1) t assms(2), of mul M]
  obtain M1 where M1: "run_worker (sw_slave_sscal_f mul) para M tid = Some M1"
    "mem M1 = scaled_on mul (alpha para) (mem M) (src para) (dst para) (worker_range N tid)"
    unfolding N_def by blast
  from Cons.IH [of M1] Cons.prems
  obtain M' where M': "run_workers (sw_slave_sscal_f mul) para M1 ids = Some M'"
    "mem M' = scaled_on mul (alpha para) (mem M1) (src para) (dst para)
                (\<Union>u \<in> set ids. worker_range N u)"
    unfolding N_def by auto
  have disj: "worker_range N tid \<inter> (\<Union>u \<in> set ids. worker_range N u) = {}"
  proof -
    have "worker_range N tid \<inter> worker_range N u = {}" if "u \<in> set ids" for u
    proof -
      from that nin have "tid \<noteq> u"
        by auto
      then consider "tid < u" | "u < tid"
        by linarith
      then show ?thesis
      proof cases
        case 1
        then show ?thesis
          using N by (simp add: worker_range_disjoint)
      next
        case 2
        then have "worker_range N u \<inter> worker_range N tid = {}"
          using N by (simp add: worker_range_disjoint)
        then show ?thesis
          by (simp add: Int_commute)
      qed
    qed
    then show ?thesis
      by auto
  qed
  have sub1: "worker_range N tid \<subseteq> {0 ..< N}"
    using N t by (rule worker_range_subset)
  have sub2: "(\<Union>u \<in> set ids. worker_range N u) \<subseteq> {0 ..< N}"
  proof -
    have "worker_range N u \<subseteq> {0 ..< N}" if "u \<in> set ids" for u
      using that Cons.prems(2) N by (intro worker_range_subset) (auto simp: SPNUM_def)
    then show ?thesis
      by auto
  qed
  have "mem M' = scaled_on mul (alpha para) (mem M) (src para) (dst para)
                   (worker_range N tid \<union> (\<Union>u \<in> set ids. worker_range N u))"
    unfolding M'(2) M1(2)
    using assms(2) disj sub1 sub2 unfolding N_def [symmetric] by (rule scaled_on_union)
  moreover have "run_workers (sw_slave_sscal_f mul) para M (tid # ids) = Some M'"
    using M1(1) M'(1) by simp
  ultimately show ?case
    by (simp add: N_def)
qed

lemma run_all_effect:
  fixes mul :: "'a \<Rightarrow> 'a \<Rightarrow> 'a" and para :: "'a sscalPara" and M :: "'a machine"
  assumes "0 \<le> count para" and "no_clobber (src para) (dst para) (count para)"
    and "distinct ids" and "set ids = {0 ..< SPNUM}"
  shows "\<exists>M'. run_workers (sw_slave_sscal_f mul) para M ids = Some M'
           \<and> mem M' = scaled_on mul (alpha para) (mem M) (src para) (dst para) {0 ..< count para}"
proof -
  have "(\<Union>tid \<in> set ids. worker_range (count para) tid) = {0 ..< count para}"
    unfolding assms(4) using assms(1) by (rule worker_range_cover)
  then show ?thesis
    using run_workers_effect [OF assms(1,2,3), of mul M] assms(4) by simp
qed

lemma all_workers_set: "distinct all_workers \<and> set all_workers = {0 ..< SPNUM}"
  by (auto simp: all_workers_def SPNUM_def)

subsection \<open>The kernel on the concrete inputs\<close>

lemma ball_upto_1: "(\<forall>k \<in> {0 ..< 1::int}. P k) \<longleftrightarrow> P 0"
proof -
  have "{0 ..< 1::int} = {0}"
    by auto
  then show ?thesis
    by simp
qed

lemma ex_partition: "local_count_of 10 3 = 1" "start_of 10 3 = 3"
  by (simp_all add: local_count_nonneg_count start_nonneg_count)

lemmas kernel_unfold =
  sw_slave_sscal_f_def Let_def ldm_malloc_def ldm_free_def dma_set_op_def dma_set_size_def
  chunk_loop.simps tail_chunk_def tail_simd_loop.simps scalar_loop.simps dma_def
  buf_read_def buf_write_def BUFFSIZE_def SIMDSIZE_def sizeof_float_def ball_upto_1

lemma ex_worker_trace:
  "map_option trace (sw_slave_sscal_f (*) ex_para 3 ex_cpe)
     = Some [LdmMalloc 16384, LdmMalloc 16384, DmaGet 3 1, DmaPut 103 1,
             LdmFree 16384, LdmFree 16384]"
  by (simp add: kernel_unfold ex_para_def ex_cpe_def idle_desc_def ex_partition)

lemma ex_worker_values:
  "map_option (\<lambda>c. map (gmem c) [102, 103, 104]) (sw_slave_sscal_f (*) ex_para 3 ex_cpe)
     = Some [102, 6, 104]"
  by (simp add: kernel_unfold ex_para_def ex_cpe_def idle_desc_def ex_partition)

lemma ex_no_clobber: "no_clobber (src ex_para) (dst ex_para) (count ex_para)"
  by (simp add: ex_para_def no_clobber_def)

lemma scaled_on_outside: "x - d \<notin> R \<Longrightarrow> scaled_on mul al m s d R x = m x"
  by (simp add: scaled_on_def)

lemma scaled_on_inside:
  "x - d \<in> R \<Longrightarrow> scaled_on mul al m s d R x = mul (m (s + (x - d))) al"
  by (simp add: scaled_on_def)

subsection \<open>The double-precision entry point\<close>

lemma run_worker_sscal_d: "run_worker sw_slave_sscal_d para M tid = Some M"
  by (simp add: run_worker_def sw_slave_sscal_d_def)

lemma run_workers_sscal_d: "run_workers sw_slave_sscal_d para M ids = Some M"
  by (induction ids) (simp_all add: run_worker_sscal_d)

subsection \<open>Workers on vectors that overlap\<close>

lemma run_worker_local:
  fixes mul :: "'a \<Rightarrow> 'a \<Rightarrow> 'a" and para :: "'a sscalPara" and M :: "'a machine"
  shows "\<exists>M'. run_worker (sw_slave_sscal_f mul) para M tid = Some M'
           \<and> (\<forall>x. x - dst para \<notin> worker_range (count para) tid \<longrightarrow> mem M' x = mem M x)
           \<and> (local_count_of (count para) tid < BUFFSIZE
                \<longrightarrow> mem M' = scaled_on mul (alpha para) (mem M) (src para) (dst para)
                                (worker_range (count para) tid))"
proof -
  define k where "k = start_of (count para) tid"
  define n where "n = local_count_of (count para) tid"
  define c where "c = \<lparr>gmem = mem M, dma_get_sscal_src = fst (tls M tid),
                        dma_put_sscal_dst = snd (tls M tid), trace = []\<rparr>"
  from worker_effect [of mul para tid c]
  obtain c' where r: "sw_slave_sscal_f mul para tid c = Some c'"
    and f: "\<forall>x. \<not> (dst para + k \<le> x \<and> x < dst para + k + n) \<longrightarrow> gmem c' x = gmem c x"
    and v: "n < BUFFSIZE
              \<longrightarrow> gmem c' = scal_block mul (alpha para) (gmem c) (src para + k) (dst para + k) 0 n"
    unfolding k_def n_def by blast
  have run: "run_worker (sw_slave_sscal_f mul) para M tid
               = Some \<lparr>mem = gmem c', tls = (tls M)(tid := (dma_get_sscal_src c', dma_put_sscal_dst c'))\<rparr>"
    using r by (simp add: run_worker_def c_def [symmetric])
  have "gmem c' x = mem M x" if "x - dst para \<notin> worker_range (count para) tid" for x
  proof -
    from that have "\<not> (dst para + k \<le> x \<and> x < dst para + k + n)"
      by (auto simp: worker_range_def k_def n_def)
    then show ?thesis
      using f by (simp add: c_def)
  qed
  moreover have "gmem c' = scaled_on mul (alpha para) (mem M) (src para) (dst para)
                             (worker_range (count para) tid)" if "n < BUFFSIZE"
    using that v unfolding scal_block_is_scaled_on
    by (simp add: c_def worker_range_def k_def n_def)
  ultimately show ?thesis
    using run by (simp add: n_def)
qed

lemma run_workers_frame:
  fixes mul :: "'a \<Rightarrow> 'a \<Rightarrow> 'a" and para :: "'a sscalPara" and M :: "'a machine"
  shows "\<exists>M'. run_workers (sw_slave_sscal_f mul) para M ids = Some M'
           \<and> (\<forall>x. (\<forall>tid \<in> set ids. x - dst para \<notin> worker_range (count para) tid)
                  \<longrightarrow> mem M' x = mem M x)"
proof (induction ids arbitrary: M)
  case Nil
  show ?case
    by simp
next
  case (Cons tid ids)
  from run_worker_local [of mul para M tid]
  obtain M1 where r1: "run_worker (sw_slave_sscal_f mul) para M tid = Some M1"
    and f1: "\<forall>x. x - dst para \<notin> worker_range (count para) tid \<longrightarrow> mem M1 x = mem M x"
    by blast
  from Cons [of M1]
  obtain M' where r: "run_workers (sw_slave_sscal_f mul) para M1 ids = Some M'"
    and f: "\<forall>x. (\<forall>u \<in> set ids. x - dst para \<notin> worker_range (count para) u)
                  \<longrightarrow> mem M' x = mem M1 x"
    by blast
  have "run_workers (sw_slave_sscal_f mul) para M (tid # ids) = Some M'"
    using r1 r by simp
  moreover have "mem M' x = mem M x"
    if "\<forall>u \<in> set (tid # ids). x - dst para \<notin> worker_range (count para) u" for x
    using that f f1 by simp
  ultimately show ?case
    by blast
qed

lemma all_workers_split: "all_workers = 0 # 1 # [2 .. 63]"
proof -
  have "[0 .. 63::int] = 0 # [0 + 1 .. 63]"
    by (rule upto_rec1) simp
  moreover have "[1 .. 63::int] = 1 # [1 + 1 .. 63]"
    by (rule upto_rec1) simp
  ultimately show ?thesis
    by (simp add: all_workers_def SPNUM_def)
qed

text \<open>The first two workers in turn, then the others, which leave the cell \<open>x\<close> alone.\<close>

lemma run_first_two:
  fixes para :: "'a sscalPara" and M :: "'a machine"
  assumes "local_count_of (count para) 0 < BUFFSIZE" and "local_count_of (count para) 1 < BUFFSIZE"
    and "\<forall>tid \<in> {2 .. 63}. x - dst para \<notin> worker_range (count para) tid"
  shows "\<exists>M'. run_workers (sw_slave_sscal_f mul) para M all_workers = Some M'
           \<and> mem M' x =
               scaled_on mul (alpha para)
                 (scaled_on mul (alpha para) (mem M) (src para) (dst para)
                    (worker_range (count para) 0))
                 (src para) (dst para) (worker_range (count para) 1) x"
proof -
  from run_worker_local [of mul para M 0] assms(1)
  obtain M1 where r1: "run_worker (sw_slave_sscal_f mul) para M 0 = Some M1"
    and v1: "mem M1 = scaled_on mul (alpha para) (mem M) (src para) (dst para)
                        (worker_range (count para) 0)"
    by blast
  from run_worker_local [of mul para M1 1] assms(2)
  obtain M2 where r2: "run_worker (sw_slave_sscal_f mul) para M1 1 = Some M2"
    and v2: "mem M2 = scaled_on mul (alpha para) (mem M1) (src para) (dst para)
                        (worker_range (count para) 1)"
    by blast
  from run_workers_frame [of mul para M2 "[2 .. 63]"] assms(3)
  obtain M3 where r3: "run_workers (sw_slave_sscal_f mul) para M2 [2 .. 63] = Some M3"
    and v3: "mem M3 x = mem M2 x"
    by auto
  have "run_workers (sw_slave_sscal_f mul) para M all_workers = Some M3"
    unfolding all_workers_split using r1 r2 r3 by simp
  then show ?thesis
    using v1 v2 v3 by simp
qed
lemma overlap_ranges:
  "worker_range 2 0 = {0 ..< 1}" "worker_range 2 1 = {1 ..< 2}"
  "worker_range 4096 0 = {0 ..< 64}" "worker_range 4096 1 = {64 ..< 128}"
  "worker_range 4097 0 = {0 ..< 65}" "worker_range 4097 1 = {65 ..< 129}"
  by (simp_all add: worker_range_def local_count_nonneg_count start_nonneg_count)

lemma overlap_counts:
  "local_count_of 2 0 < BUFFSIZE" "local_count_of 2 1 < BUFFSIZE"
  "local_count_of 4096 0 < BUFFSIZE" "local_count_of 4096 1 < BUFFSIZE"
  "local_count_of 4097 0 < BUFFSIZE" "local_count_of 4097 1 < BUFFSIZE"
  by (simp_all add: local_count_nonneg_count BUFFSIZE_def)

lemma overlap_others:
  "\<forall>tid \<in> {2 .. 63}. (1::int) \<notin> worker_range 2 tid"
  "\<forall>tid \<in> {2 .. 63}. (64::int) \<notin> worker_range 4096 tid"
  "\<forall>tid \<in> {2 .. 63}. (64::int) \<notin> worker_range 4097 tid"
  by (auto simp: worker_range_def local_count_nonneg_count start_nonneg_count)

subsection \<open>Claims about the partitioner\<close>

text \<open>
  C2. For every element count \<open>N \<ge> 0\<close> and every worker index in \<open>[0, P)\<close> of the fixed
  population \<open>P = SPNUM\<close>, the two expressions of the kernel compute
  \<open>local_count = N/P + (1 if id < N mod P else 0)\<close> and
  \<open>start_offset = id*(N/P) + min(id, N mod P)\<close>; they are pure integer expressions (functions
  of \<open>N\<close> and the index alone), and \<open>local_count\<close> is zero exactly when \<open>N < P\<close> and
  \<open>id \<ge> N\<close>.
\<close>

theorem partitioner_contract:
  assumes "0 \<le> N" and "0 \<le> tid" and "tid < SPNUM"
  shows "local_count_of N tid = spec_local_count N SPNUM tid
       \<and> start_of N tid = spec_start_offset N SPNUM tid
       \<and> (local_count_of N tid = 0 \<longleftrightarrow> N < SPNUM \<and> N \<le> tid)"
proof -
  have lc: "local_count_of N tid = N div 64 + (if tid < N mod 64 then 1 else 0)"
    using assms(1) by (rule local_count_nonneg_count)
  have st: "start_of N tid = tid * (N div 64) + min tid (N mod 64)"
    using assms(1) by (rule start_nonneg_count)
  have d0: "0 \<le> N div 64"
    using assms(1) by simp
  have zero: "local_count_of N tid = 0 \<longleftrightarrow> N < 64 \<and> N \<le> tid"
  proof (cases "N < 64")
    case True
    then show ?thesis
      using assms(1) by (simp add: lc)
  next
    case False
    then have "1 \<le> N div 64"
      by simp
    then show ?thesis
      using False by (simp add: lc)
  qed
  show ?thesis
    using lc st zero by (simp add: spec_local_count_def spec_start_offset_def SPNUM_def)
qed

theorem partitioner_contract_witness:
  "(0::int) \<le> 70 \<and> (0::int) \<le> 5 \<and> 5 < SPNUM
   \<and> local_count_of 70 5 = 2 \<and> start_of 70 5 = 10
   \<and> local_count_of 70 5 \<noteq> 0 \<and> local_count_of 10 12 = 0"
  using partitioner_contract [of 70 5] partitioner_contract [of 10 12]
  by (simp add: SPNUM_def spec_local_count_def spec_start_offset_def)

text \<open>
  C3. For every \<open>N \<ge> 0\<close> the half-open ranges \<open>[start_offset, start_offset + local_count)\<close> of
  the workers \<open>0, \<dots>, P - 1\<close> are pairwise disjoint, their union is exactly \<open>[0, N)\<close>, and the
  \<open>N mod P\<close> remainder elements go one each to the lowest-indexed workers: worker \<open>id\<close> gets
  \<open>N div P\<close> elements, and one more when \<open>id < N mod P\<close>.
\<close>

theorem partition_coverage:
  assumes "0 \<le> N"
  shows "(\<forall>a \<in> {0 ..< SPNUM}. \<forall>b \<in> {0 ..< SPNUM}.
            a \<noteq> b \<longrightarrow> worker_range N a \<inter> worker_range N b = {})
       \<and> (\<Union>tid \<in> {0 ..< SPNUM}. worker_range N tid) = {0 ..< N}
       \<and> (\<forall>tid \<in> {0 ..< SPNUM}.
            local_count_of N tid = N div SPNUM + (if tid < N mod SPNUM then 1 else 0))"
proof (intro conjI ballI impI)
  fix a b :: int
  assume "a \<noteq> b"
  then consider "a < b" | "b < a"
    by linarith
  then show "worker_range N a \<inter> worker_range N b = {}"
  proof cases
    case 1
    then show ?thesis
      using assms by (simp add: worker_range_disjoint)
  next
    case 2
    then have "worker_range N b \<inter> worker_range N a = {}"
      using assms by (simp add: worker_range_disjoint)
    then show ?thesis
      by (simp add: Int_commute)
  qed
next
  show "(\<Union>tid \<in> {0 ..< SPNUM}. worker_range N tid) = {0 ..< N}"
    using assms by (rule worker_range_cover)
next
  fix tid :: int
  show "local_count_of N tid = N div SPNUM + (if tid < N mod SPNUM then 1 else 0)"
    using assms by (simp add: local_count_nonneg_count SPNUM_def)
qed

theorem partition_coverage_witness:
  "(0::int) \<le> 70
   \<and> worker_range 70 5 \<inter> worker_range 70 6 = {}
   \<and> (\<Union>tid \<in> {0 ..< SPNUM}. worker_range 70 tid) = {0 ..< 70}
   \<and> local_count_of 70 5 = 2 \<and> local_count_of 70 6 = 1"
proof -
  have mem: "(5::int) \<in> {0 ..< SPNUM}" "(6::int) \<in> {0 ..< SPNUM}"
    by (simp_all add: SPNUM_def)
  note cov = partition_coverage [of 70, simplified]
  have "worker_range 70 5 \<inter> worker_range 70 6 = {}"
    using cov mem by auto
  moreover have "local_count_of 70 5 = 2" "local_count_of 70 6 = 1"
    using cov mem by (auto simp: SPNUM_def)
  ultimately show ?thesis
    using cov by simp
qed

subsection \<open>Claims about one worker\<close>

text \<open>
  C5. For every worker and every input, each in-transfer of the worker reads only source
  elements of its own range \<open>[start_offset, start_offset + local_count)\<close>, each out-transfer
  writes only destination elements of that range, and every cell of global memory outside
  the destination elements of that range is left as it was. The worker's record is its two
  allocations, then its transfers, then the two releases.
\<close>

theorem worker_frame:
  fixes mul :: "'a \<Rightarrow> 'a \<Rightarrow> 'a" and para :: "'a sscalPara" and c :: "'a cpe" and tid :: int
  defines "lo \<equiv> start_of (count para) tid"
    and "hi \<equiv> start_of (count para) tid + local_count_of (count para) tid"
    and "nb \<equiv> BUFFSIZE * sizeof_float"
  shows "\<exists>c' evs. sw_slave_sscal_f mul para tid c = Some c'
           \<and> trace c' = trace c @ [LdmMalloc nb, LdmMalloc nb] @ evs @ [LdmFree nb, LdmFree nb]
           \<and> (\<forall>e \<in> set evs. xfer_in_range (src para) (dst para) lo hi e)
           \<and> (\<forall>x. \<not> (dst para + lo \<le> x \<and> x < dst para + hi) \<longrightarrow> gmem c' x = gmem c x)"
proof -
  from worker_effect [of mul para tid c]
  obtain c' evs where
    r: "sw_slave_sscal_f mul para tid c = Some c'"
    and t: "trace c' = trace c @ [LdmMalloc nb, LdmMalloc nb] @ evs @ [LdmFree nb, LdmFree nb]"
    and e: "\<forall>e \<in> set evs. xfer_in_range (src para + lo) (dst para + lo) 0 (hi - lo) e"
    and f: "\<forall>x. \<not> (dst para + lo \<le> x \<and> x < dst para + lo + (hi - lo)) \<longrightarrow> gmem c' x = gmem c x"
    unfolding lo_def hi_def nb_def by auto
  have "\<forall>e \<in> set evs. xfer_in_range (src para) (dst para) lo hi e"
    using e by (simp add: xfer_in_range_shift)
  moreover have "\<forall>x. \<not> (dst para + lo \<le> x \<and> x < dst para + hi) \<longrightarrow> gmem c' x = gmem c x"
    using f by simp
  ultimately show ?thesis
    using r t by blast
qed

theorem worker_frame_witness:
  "\<exists>c'. sw_slave_sscal_f (*) ex_para 3 ex_cpe = Some c'
     \<and> trace c' = [LdmMalloc 16384, LdmMalloc 16384, DmaGet 3 1, DmaPut 103 1,
                    LdmFree 16384, LdmFree 16384]
     \<and> xfer_in_range 0 100 3 4 (DmaGet 3 1) \<and> xfer_in_range 0 100 3 4 (DmaPut 103 1)
     \<and> gmem c' 102 = 102 \<and> gmem c' 104 = 104 \<and> gmem c' 3 = 3"
proof -
  from worker_frame [of "(*)" ex_para 3 ex_cpe]
  obtain c' evs where
    r: "sw_slave_sscal_f (*) ex_para 3 ex_cpe = Some c'"
    and t: "trace c' = trace ex_cpe @ [LdmMalloc 16384, LdmMalloc 16384] @ evs
                         @ [LdmFree 16384, LdmFree 16384]"
    and e: "\<forall>e \<in> set evs. xfer_in_range 0 100 3 4 e"
    and f: "\<forall>x. \<not> (103 \<le> x \<and> x < 104) \<longrightarrow> gmem c' x = gmem ex_cpe x"
    by (auto simp: ex_para_def ex_partition BUFFSIZE_def sizeof_float_def)
  have "trace c' = [LdmMalloc 16384, LdmMalloc 16384, DmaGet 3 1, DmaPut 103 1,
                    LdmFree 16384, LdmFree 16384]"
    using ex_worker_trace r by simp
  with t have evs: "evs = [DmaGet 3 1, DmaPut 103 1]"
    by (simp add: ex_cpe_def)
  have "xfer_in_range 0 100 3 4 (DmaGet 3 1)" "xfer_in_range 0 100 3 4 (DmaPut 103 1)"
    using e unfolding evs by simp_all
  moreover have "gmem c' 102 = 102" "gmem c' 104 = 104" "gmem c' 3 = 3"
    using f by (simp_all add: ex_cpe_def)
  ultimately show ?thesis
    using r t evs by (simp add: ex_cpe_def)
qed

text \<open>
  C6. A worker whose \<open>local_count\<close> is 0 issues no in-transfer and no out-transfer, leaves
  every cell of global memory (source and destination) unchanged, and returns after its two
  allocations and two releases: its record is exactly these four events. For \<open>N = 0\<close> that
  is every worker, by \<open>local_count_of_zero_count\<close>.
\<close>

theorem zero_length_worker:
  fixes mul :: "'a \<Rightarrow> 'a \<Rightarrow> 'a" and para :: "'a sscalPara" and c :: "'a cpe" and tid :: int
  defines "nb \<equiv> BUFFSIZE * sizeof_float"
  assumes "local_count_of (count para) tid = 0 \<or> (count para = 0 \<and> 0 \<le> tid)"
  shows "\<exists>c'. sw_slave_sscal_f mul para tid c = Some c'
           \<and> gmem c' = gmem c
           \<and> trace c' = trace c @ [LdmMalloc nb, LdmMalloc nb, LdmFree nb, LdmFree nb]"
proof -
  have z: "local_count_of (count para) tid = 0"
    using assms(2) local_count_of_zero_count [of tid] by auto
  from worker_effect [of mul para tid c]
  obtain c' evs where
    r: "sw_slave_sscal_f mul para tid c = Some c'"
    and t: "trace c' = trace c @ [LdmMalloc nb, LdmMalloc nb] @ evs @ [LdmFree nb, LdmFree nb]"
    and n: "evs = []"
    and f: "\<forall>x. gmem c' x = gmem c x"
    unfolding nb_def z by auto
  have "gmem c' = gmem c"
    using f by (intro ext) simp
  then show ?thesis
    using r t n by simp
qed

theorem zero_length_worker_witness:
  "local_count_of (count ex_para) 12 = 0
   \<and> (\<exists>c'. sw_slave_sscal_f (*) ex_para 12 ex_cpe = Some c'
          \<and> gmem c' = gmem ex_cpe
          \<and> trace c' = [LdmMalloc 16384, LdmMalloc 16384, LdmFree 16384, LdmFree 16384])
   \<and> (\<exists>c'. sw_slave_sscal_f (*) (ex_para\<lparr>count := 0\<rparr>) 0 ex_cpe = Some c'
          \<and> gmem c' = gmem ex_cpe
          \<and> trace c' = [LdmMalloc 16384, LdmMalloc 16384, LdmFree 16384, LdmFree 16384])"
proof -
  have z: "local_count_of (count ex_para) 12 = 0"
    by (simp add: ex_para_def local_count_nonneg_count)
  have t: "trace ex_cpe = []" and nb: "BUFFSIZE * sizeof_float = 16384"
    by (simp_all add: ex_cpe_def BUFFSIZE_def sizeof_float_def)
  show ?thesis
    using z zero_length_worker [of ex_para 12 "(*)" ex_cpe]
      zero_length_worker [of "ex_para\<lparr>count := 0\<rparr>" 0 "(*)" ex_cpe]
    by (simp add: t nb)
qed

text \<open>
  C10. The kernel never reads or writes a staging buffer outside \<open>[0, BUFFSIZE)\<close>, and never
  reads a cell of one that holds no value: every such access is an error of the embedding,
  and the kernel returns a result for every descriptor, worker and memory. When the chunk
  loop has returned and its final \<open>off\<close> is below \<open>local_count\<close>, so that the tail is taken,
  the remainder satisfies \<open>0 < local_count - off < BUFFSIZE\<close>.
\<close>

theorem staging_in_bounds:
  fixes mul :: "'a \<Rightarrow> 'a \<Rightarrow> 'a" and para :: "'a sscalPara" and c :: "'a cpe" and tid :: int
  shows "(\<exists>c'. sw_slave_sscal_f mul para tid c = Some c')
       \<and> (\<forall>valpha sp dp lc ls ld c6 off ls' ld' c7.
             chunk_loop mul valpha sp dp lc 0 ls ld c6 = Some (off, ls', ld', c7) \<and> off < lc
               \<longrightarrow> 0 < lc - off \<and> lc - off < BUFFSIZE)"
proof (rule conjI)
  show "\<exists>c'. sw_slave_sscal_f mul para tid c = Some c'"
    using worker_effect [of mul para tid c] by blast
next
  show "\<forall>valpha sp dp lc ls ld c6 off ls' ld' c7.
          chunk_loop mul valpha sp dp lc 0 ls ld c6 = Some (off, ls', ld', c7) \<and> off < lc
            \<longrightarrow> 0 < lc - off \<and> lc - off < BUFFSIZE"
  proof (intro allI impI)
    fix valpha sp dp lc ls ld c6 off ls' ld' and c7 :: "'a cpe"
    assume a: "chunk_loop mul valpha sp dp lc 0 ls ld c6 = Some (off, ls', ld', c7) \<and> off < lc"
    then have "lc - off < BUFFSIZE"
      using chunk_loop_remainder [of mul valpha sp dp lc 0 ls ld c6 off ls' ld' c7] by simp
    with a show "0 < lc - off \<and> lc - off < BUFFSIZE"
      by simp
  qed
qed

theorem staging_in_bounds_witness:
  "chunk_loop (*) (simd_bcast 2) 3 103 1 0 Map.empty Map.empty ex_cpe
     = Some (0, Map.empty, Map.empty, ex_cpe)
   \<and> (0::int) < 1 \<and> (0::int) < 1 - 0 \<and> (1::int) - 0 < BUFFSIZE
   \<and> (\<exists>c'. sw_slave_sscal_f (*) ex_para 3 ex_cpe = Some c')
   \<and> simd_load (\<lambda>k. Some (0::real)) (BUFFSIZE - 2) = None
   \<and> buf_write (\<lambda>k. Some (0::real)) BUFFSIZE 1 = None"
proof -
  have r: "chunk_loop (*) (simd_bcast 2) 3 103 1 0 Map.empty Map.empty ex_cpe
             = Some (0, Map.empty, Map.empty, ex_cpe)"
    by (simp add: chunk_loop.simps BUFFSIZE_def)
  have "simd_load (\<lambda>k. Some (0::real)) (BUFFSIZE - 2) = None"
    "buf_write (\<lambda>k. Some (0::real)) BUFFSIZE 1 = None"
    by (simp_all add: simd_load_def buf_read_def buf_write_def BUFFSIZE_def)
  moreover note b = staging_in_bounds [of "(*)" ex_para 3 ex_cpe]
  from b have "\<exists>c'. sw_slave_sscal_f (*) ex_para 3 ex_cpe = Some c'"
    by (rule conjunct1)
  moreover from b r have "(0::int) < 1 \<longrightarrow> (0::int) < 1 - 0 \<and> (1::int) - 0 < BUFFSIZE"
    by blast
  then have "(0::int) < 1 - 0 \<and> (1::int) - 0 < BUFFSIZE"
    by simp
  ultimately show ?thesis
    using r by simp
qed

subsection \<open>Claims about the whole population\<close>

text \<open>
  C1, as the specification has it: for every input vector the destination element \<open>y[i]\<close>
  ends as \<open>alpha * x[i]\<close>. The descriptor carries two independent pointers, and a destination
  may start inside the source. With two elements, \<open>x = [3, 4]\<close> at address 3, the
  destination at address 4 and \<open>alpha = 2\<close>, worker 0 writes \<open>y[0] = 6\<close> into the cell of
  \<open>x[1]\<close> before worker 1 reads it, and \<open>y[1]\<close> ends as 12, where \<open>alpha * x[1]\<close> is 8.
\<close>

theorem scale_overlap_counterexample:
  "src overlap_para + 1 = dst overlap_para
   \<and> mem (the (run_workers (sw_slave_sscal_f (*)) overlap_para ex_machine all_workers))
         (dst overlap_para + 1) = 12
   \<and> alpha overlap_para * mem ex_machine (src overlap_para + 1) = 8"
proof -
  have o: "\<forall>tid \<in> {2 .. 63}. dst overlap_para + 1 - dst overlap_para
             \<notin> worker_range (count overlap_para) tid"
    using overlap_others(1) by (simp add: overlap_para_def)
  have c: "local_count_of (count overlap_para) 0 < BUFFSIZE"
    "local_count_of (count overlap_para) 1 < BUFFSIZE"
    using overlap_counts(1,2) by (simp_all add: overlap_para_def)
  from run_first_two [OF c o, of "(*)" ex_machine]
  obtain M' where r: "run_workers (sw_slave_sscal_f (*)) overlap_para ex_machine all_workers = Some M'"
    and v: "mem M' (dst overlap_para + 1) =
              scaled_on (*) (alpha overlap_para)
                (scaled_on (*) (alpha overlap_para) (mem ex_machine) (src overlap_para)
                   (dst overlap_para) (worker_range (count overlap_para) 0))
                (src overlap_para) (dst overlap_para) (worker_range (count overlap_para) 1)
                (dst overlap_para + 1)"
    by blast
  have "mem M' (dst overlap_para + 1) = 12"
    unfolding v by (simp add: overlap_para_def overlap_ranges scaled_on_def ex_machine_def)
  then show ?thesis
    using r by (simp add: overlap_para_def ex_machine_def)
qed

text \<open>
  C1, amended. When source and destination are one vector, or two vectors that do not
  overlap, then for every scalar \<open>alpha\<close>, every count \<open>N \<ge> 0\<close> and every input vector \<open>x\<close>
  of length \<open>N\<close>, after the kernel has run on every worker index in \<open>[0, 64)\<close>, in any order,
  the destination element \<open>y[i]\<close> is the one product \<open>x[i] * alpha\<close>, in the order in which
  the kernel writes its operands, for every \<open>i\<close> in \<open>[0, N)\<close>; this is \<open>alpha * x[i]\<close> for a
  product that does not depend on the order of its operands, as the product of the machine.
\<close>

theorem scale_correctness:
  fixes mul :: "'a \<Rightarrow> 'a \<Rightarrow> 'a" and para :: "'a sscalPara" and M :: "'a machine"
  assumes "0 \<le> count para"
    and "src para = dst para \<or> src para + count para \<le> dst para
           \<or> dst para + count para \<le> src para"
    and "distinct ids" and "set ids = {0 ..< SPNUM}"
  shows "\<exists>M'. run_workers (sw_slave_sscal_f mul) para M ids = Some M'
           \<and> (\<forall>i. 0 \<le> i \<and> i < count para
                  \<longrightarrow> mem M' (dst para + i) = mul (mem M (src para + i)) (alpha para))
           \<and> ((\<forall>a b. mul a b = mul b a)
                  \<longrightarrow> (\<forall>i. 0 \<le> i \<and> i < count para
                         \<longrightarrow> mem M' (dst para + i) = mul (alpha para) (mem M (src para + i))))"
proof -
  have nc: "no_clobber (src para) (dst para) (count para)"
    using assms(2) by (simp add: no_clobber_def)
  from run_all_effect [OF assms(1) nc assms(3,4), of mul M]
  obtain M' where r: "run_workers (sw_slave_sscal_f mul) para M ids = Some M'"
    and v: "mem M' = scaled_on mul (alpha para) (mem M) (src para) (dst para) {0 ..< count para}"
    by blast
  have el: "mem M' (dst para + i) = mul (mem M (src para + i)) (alpha para)"
    if "0 \<le> i \<and> i < count para" for i
    using that by (simp add: v scaled_on_def)
  then have "(\<forall>a b. mul a b = mul b a)
               \<longrightarrow> (\<forall>i. 0 \<le> i \<and> i < count para
                      \<longrightarrow> mem M' (dst para + i) = mul (alpha para) (mem M (src para + i)))"
    by metis
  then show ?thesis
    using r el by blast
qed

theorem scale_correctness_witness:
  "(0::int) \<le> count ex_para \<and> src ex_para + count ex_para \<le> dst ex_para
   \<and> distinct all_workers \<and> set all_workers = {0 ..< SPNUM}
   \<and> (\<exists>M'. run_workers (sw_slave_sscal_f (*)) ex_para ex_machine all_workers = Some M'
          \<and> mem M' 103 = 6 \<and> mem M' 109 = 18)
   \<and> src inplace_para = dst inplace_para
   \<and> (\<exists>M'. run_workers (sw_slave_sscal_f (*)) inplace_para ex_machine (rev all_workers) = Some M'
          \<and> mem M' 3 = 6 \<and> mem M' 9 = 18)"
proof -
  have c: "(0::int) \<le> count ex_para" and d: "src ex_para + count ex_para \<le> dst ex_para"
    by (simp_all add: ex_para_def)
  have ci: "(0::int) \<le> count inplace_para" and di: "src inplace_para = dst inplace_para"
    by (simp_all add: inplace_para_def)
  have w: "distinct all_workers" "set all_workers = {0 ..< SPNUM}"
    "distinct (rev all_workers)" "set (rev all_workers) = {0 ..< SPNUM}"
    using all_workers_set by simp_all
  from scale_correctness [OF c disjI2 [OF disjI1 [OF d]] w(1,2), of "(*)" ex_machine]
  obtain M' where r: "run_workers (sw_slave_sscal_f (*)) ex_para ex_machine all_workers = Some M'"
    and v: "\<forall>i. 0 \<le> i \<and> i < count ex_para
              \<longrightarrow> mem M' (dst ex_para + i) = mem ex_machine (src ex_para + i) * alpha ex_para"
    by blast
  have "mem M' 103 = 6" "mem M' 109 = 18"
    using v [rule_format, of 3] v [rule_format, of 9] by (simp_all add: ex_para_def ex_machine_def)
  with r have one: "\<exists>M'. run_workers (sw_slave_sscal_f (*)) ex_para ex_machine all_workers = Some M'
          \<and> mem M' 103 = 6 \<and> mem M' 109 = 18"
    by simp
  from scale_correctness [OF ci disjI1 [OF di] w(3,4), of "(*)" ex_machine]
  obtain Mi where ri: "run_workers (sw_slave_sscal_f (*)) inplace_para ex_machine (rev all_workers)
                         = Some Mi"
    and vi: "\<forall>i. 0 \<le> i \<and> i < count inplace_para
              \<longrightarrow> mem Mi (dst inplace_para + i)
                    = mem ex_machine (src inplace_para + i) * alpha inplace_para"
    by blast
  have "mem Mi 3 = 6" "mem Mi 9 = 18"
    using vi [rule_format, of 3] vi [rule_format, of 9]
    by (simp_all add: inplace_para_def ex_machine_def)
  with ri have two: "\<exists>M'. run_workers (sw_slave_sscal_f (*)) inplace_para ex_machine (rev all_workers)
                       = Some M' \<and> mem M' 3 = 6 \<and> mem M' 9 = 18"
    by simp
  show ?thesis
    using c d w(1,2) one di two by simp
qed

text \<open>
  C7, as the specification has it: for \<open>N\<close> a multiple of \<open>BUFFSIZE\<close> the run on \<open>N\<close>
  elements and the run on the same data extended to \<open>N + 1\<close> elements leave the same first
  \<open>N\<close> destination elements. With \<open>N = 4096\<close>, \<open>x[i] = i\<close> at address 0, the destination at
  address 1 and \<open>alpha = 2\<close>, the run on \<open>N\<close> leaves \<open>y[64] = 252\<close>: worker 1 reads \<open>x[64]\<close>
  from the cell into which worker 0 has written \<open>y[63] = 126\<close>. In the run on \<open>N + 1\<close>
  worker 0 owns 65 elements, reads \<open>x[64]\<close> before it writes, and leaves \<open>y[64] = 128\<close>.
\<close>

theorem chunk_boundary_overlap_counterexample:
  "count shifted_para mod BUFFSIZE = 0 \<and> src shifted_para + 1 = dst shifted_para
   \<and> mem (the (run_workers (sw_slave_sscal_f (*)) shifted_para ex_machine all_workers))
         (dst shifted_para + 64) = 252
   \<and> mem (the (run_workers (sw_slave_sscal_f (*))
                 (shifted_para\<lparr>count := count shifted_para + 1\<rparr>) ex_machine all_workers))
         (dst shifted_para + 64) = 128"
proof -
  define q where "q = shifted_para\<lparr>count := count shifted_para + 1\<rparr>"
  have o: "\<forall>tid \<in> {2 .. 63}. dst shifted_para + 64 - dst shifted_para
             \<notin> worker_range (count shifted_para) tid"
    using overlap_others(2) by (simp add: shifted_para_def)
  have c: "local_count_of (count shifted_para) 0 < BUFFSIZE"
    "local_count_of (count shifted_para) 1 < BUFFSIZE"
    using overlap_counts(3,4) by (simp_all add: shifted_para_def)
  from run_first_two [OF c o, of "(*)" ex_machine]
  obtain M1 where r1: "run_workers (sw_slave_sscal_f (*)) shifted_para ex_machine all_workers = Some M1"
    and v1: "mem M1 (dst shifted_para + 64) =
              scaled_on (*) (alpha shifted_para)
                (scaled_on (*) (alpha shifted_para) (mem ex_machine) (src shifted_para)
                   (dst shifted_para) (worker_range (count shifted_para) 0))
                (src shifted_para) (dst shifted_para) (worker_range (count shifted_para) 1)
                (dst shifted_para + 64)"
    by blast
  have m1: "mem M1 (dst shifted_para + 64) = 252"
    unfolding v1 by (simp add: shifted_para_def overlap_ranges scaled_on_def ex_machine_def)
  have o': "\<forall>tid \<in> {2 .. 63}. dst shifted_para + 64 - dst q \<notin> worker_range (count q) tid"
    using overlap_others(3) by (simp add: q_def shifted_para_def)
  have c': "local_count_of (count q) 0 < BUFFSIZE" "local_count_of (count q) 1 < BUFFSIZE"
    using overlap_counts(5,6) by (simp_all add: q_def shifted_para_def)
  from run_first_two [OF c' o', of "(*)" ex_machine]
  obtain M2 where r2: "run_workers (sw_slave_sscal_f (*)) q ex_machine all_workers = Some M2"
    and v2: "mem M2 (dst shifted_para + 64) =
              scaled_on (*) (alpha q)
                (scaled_on (*) (alpha q) (mem ex_machine) (src q) (dst q)
                   (worker_range (count q) 0))
                (src q) (dst q) (worker_range (count q) 1) (dst shifted_para + 64)"
    by blast
  have m2: "mem M2 (dst shifted_para + 64) = 128"
    unfolding v2 by (simp add: q_def shifted_para_def overlap_ranges scaled_on_def ex_machine_def)
  have "count shifted_para mod BUFFSIZE = 0" "src shifted_para + 1 = dst shifted_para"
    by (simp_all add: shifted_para_def BUFFSIZE_def)
  then show ?thesis
    using m1 m2 by (simp add: r1 r2 q_def [symmetric])
qed

text \<open>
  C7, amended. When source and destination are one vector, or two vectors that do not
  overlap, then for every \<open>N \<ge> 0\<close> that is an exact multiple of \<open>BUFFSIZE\<close> the destination
  elements \<open>[0, N)\<close> that the kernel produces on the vector of length \<open>N\<close> are the first \<open>N\<close>
  destination elements that it produces on the same data extended to length \<open>N + 1\<close>,
  whatever the rest of the two memories holds, and each of them is the product
  \<open>x[i] * alpha\<close>: the chunks of \<open>BUFFSIZE\<close> elements, the groups of four of a tail and its
  scalar leftover agree element by element. (The proof does not use that \<open>BUFFSIZE\<close>
  divides \<open>N\<close>.)
\<close>

theorem chunk_boundary_equivalence:
  fixes mul :: "'a \<Rightarrow> 'a \<Rightarrow> 'a" and para :: "'a sscalPara" and M Ma :: "'a machine"
  assumes "0 \<le> count para" and "count para mod BUFFSIZE = 0"
    and "src para = dst para \<or> src para + (count para + 1) \<le> dst para
           \<or> dst para + (count para + 1) \<le> src para"
    and "\<forall>i. 0 \<le> i \<and> i < count para \<longrightarrow> mem Ma (src para + i) = mem M (src para + i)"
    and "distinct ids" and "set ids = {0 ..< SPNUM}"
    and "distinct ids'" and "set ids' = {0 ..< SPNUM}"
  shows "\<exists>M1 M2. run_workers (sw_slave_sscal_f mul) para M ids = Some M1
           \<and> run_workers (sw_slave_sscal_f mul) (para\<lparr>count := count para + 1\<rparr>) Ma ids' = Some M2
           \<and> (\<forall>i. 0 \<le> i \<and> i < count para
                  \<longrightarrow> mem M1 (dst para + i) = mem M2 (dst para + i)
                    \<and> mem M1 (dst para + i) = mul (mem M (src para + i)) (alpha para))"
proof -
  define para' where "para' = para\<lparr>count := count para + 1\<rparr>"
  have nc: "no_clobber (src para) (dst para) (count para)"
    using assms(3) by (auto simp: no_clobber_def)
  have c': "0 \<le> count para'" and nc': "no_clobber (src para') (dst para') (count para')"
    using assms(1,3) by (simp_all add: para'_def no_clobber_def)
  from run_all_effect [OF assms(1) nc assms(5,6), of mul M]
  obtain M1 where r1: "run_workers (sw_slave_sscal_f mul) para M ids = Some M1"
    and v1: "mem M1 = scaled_on mul (alpha para) (mem M) (src para) (dst para) {0 ..< count para}"
    by blast
  from run_all_effect [OF c' nc' assms(7,8), of mul Ma]
  obtain M2 where r2: "run_workers (sw_slave_sscal_f mul) para' Ma ids' = Some M2"
    and v2: "mem M2 = scaled_on mul (alpha para) (mem Ma) (src para) (dst para) {0 ..< count para + 1}"
    by (auto simp: para'_def)
  have "mem M1 (dst para + i) = mem M2 (dst para + i)
          \<and> mem M1 (dst para + i) = mul (mem M (src para + i)) (alpha para)"
    if "0 \<le> i \<and> i < count para" for i
    using that assms(4) by (simp add: v1 v2 scaled_on_def)
  then show ?thesis
    using r1 r2 unfolding para'_def by blast
qed

theorem chunk_boundary_equivalence_witness:
  "(0::int) \<le> count big_para \<and> count big_para mod BUFFSIZE = 0
   \<and> src big_para + (count big_para + 1) \<le> dst big_para
   \<and> mem zeroed_machine (src big_para + 5000) = mem ex_machine (src big_para + 5000)
   \<and> mem zeroed_machine (dst big_para + 5000) = 0 \<and> mem ex_machine (dst big_para + 5000) = 305000
   \<and> local_count_of (count big_para) 0 = BUFFSIZE
   \<and> local_count_of (count big_para + 1) 0 = BUFFSIZE + 1
   \<and> (\<exists>M1 M2.
        run_workers (sw_slave_sscal_f (*)) big_para ex_machine all_workers = Some M1
      \<and> run_workers (sw_slave_sscal_f (*)) (big_para\<lparr>count := count big_para + 1\<rparr>)
          zeroed_machine (rev all_workers) = Some M2
      \<and> mem M1 (dst big_para + 5000) = mem M2 (dst big_para + 5000)
      \<and> mem M1 (dst big_para + 5000) = 10000)"
proof -
  have h: "(0::int) \<le> count big_para" "count big_para mod BUFFSIZE = 0"
    and d: "src big_para + (count big_para + 1) \<le> dst big_para"
    by (simp_all add: big_para_def BUFFSIZE_def)
  have a: "\<forall>i. 0 \<le> i \<and> i < count big_para
             \<longrightarrow> mem zeroed_machine (src big_para + i) = mem ex_machine (src big_para + i)"
    by (simp add: big_para_def zeroed_machine_def ex_machine_def)
  have w: "distinct all_workers" "set all_workers = {0 ..< SPNUM}"
    "distinct (rev all_workers)" "set (rev all_workers) = {0 ..< SPNUM}"
    using all_workers_set by simp_all
  from chunk_boundary_equivalence [OF h disjI2 [OF disjI1 [OF d]] a w, of "(*)"]
  obtain M1 M2 where
    r: "run_workers (sw_slave_sscal_f (*)) big_para ex_machine all_workers = Some M1"
    "run_workers (sw_slave_sscal_f (*)) (big_para\<lparr>count := count big_para + 1\<rparr>) zeroed_machine
       (rev all_workers) = Some M2"
    and v: "\<forall>i. 0 \<le> i \<and> i < count big_para
              \<longrightarrow> mem M1 (dst big_para + i) = mem M2 (dst big_para + i)
                \<and> mem M1 (dst big_para + i) = mem ex_machine (src big_para + i) * alpha big_para"
    by blast
  have "mem M1 (dst big_para + 5000) = mem M2 (dst big_para + 5000)"
    "mem M1 (dst big_para + 5000) = 10000"
    using v [rule_format, of 5000] by (simp_all add: big_para_def ex_machine_def)
  with r have run: "\<exists>M1 M2.
        run_workers (sw_slave_sscal_f (*)) big_para ex_machine all_workers = Some M1
      \<and> run_workers (sw_slave_sscal_f (*)) (big_para\<lparr>count := count big_para + 1\<rparr>)
          zeroed_machine (rev all_workers) = Some M2
      \<and> mem M1 (dst big_para + 5000) = mem M2 (dst big_para + 5000)
      \<and> mem M1 (dst big_para + 5000) = 10000"
    by blast
  have m: "mem zeroed_machine (src big_para + 5000) = mem ex_machine (src big_para + 5000)"
    "mem zeroed_machine (dst big_para + 5000) = 0" "mem ex_machine (dst big_para + 5000) = 305000"
    by (simp_all add: big_para_def zeroed_machine_def ex_machine_def)
  have l: "local_count_of (count big_para) 0 = BUFFSIZE"
    "local_count_of (count big_para + 1) 0 = BUFFSIZE + 1"
    by (simp_all add: big_para_def local_count_nonneg_count BUFFSIZE_def)
  show ?thesis
    using h d m l run by simp
qed

text \<open>
  C8, as the specification has it: running the kernel twice with the same descriptor leaves
  the destination after the second run as it was after the first. The descriptor may name
  one vector as source and destination; then the second run scales the scaled elements
  again: with \<open>x[3] = 3\<close> and \<open>alpha = 2\<close> the element is 6 after the first run and 12 after
  the second.
\<close>

theorem rerun_in_place_counterexample:
  "src inplace_para = dst inplace_para
   \<and> mem (the (run_workers (sw_slave_sscal_f (*)) inplace_para ex_machine all_workers)) 3 = 6
   \<and> mem (the (run_workers (sw_slave_sscal_f (*)) inplace_para
             (the (run_workers (sw_slave_sscal_f (*)) inplace_para ex_machine all_workers))
             all_workers)) 3 = 12"
proof -
  have c: "0 \<le> count inplace_para"
    and nc: "no_clobber (src inplace_para) (dst inplace_para) (count inplace_para)"
    by (simp_all add: inplace_para_def no_clobber_def)
  note w = all_workers_set [THEN conjunct1] all_workers_set [THEN conjunct2]
  from run_all_effect [OF c nc w, of "(*)" ex_machine]
  obtain M1 where r1: "run_workers (sw_slave_sscal_f (*)) inplace_para ex_machine all_workers = Some M1"
    and v1: "mem M1 = scaled_on (*) (alpha inplace_para) (mem ex_machine)
                        (src inplace_para) (dst inplace_para) {0 ..< count inplace_para}"
    by blast
  from run_all_effect [OF c nc w, of "(*)" M1]
  obtain M2 where r2: "run_workers (sw_slave_sscal_f (*)) inplace_para M1 all_workers = Some M2"
    and v2: "mem M2 = scaled_on (*) (alpha inplace_para) (mem M1)
                        (src inplace_para) (dst inplace_para) {0 ..< count inplace_para}"
    by blast
  have m1: "mem M1 3 = 6"
    by (simp add: v1 scaled_on_def inplace_para_def ex_machine_def)
  have "mem M2 3 = 2 * mem M1 3"
    by (simp add: v2 scaled_on_def inplace_para_def)
  with m1 have m2: "mem M2 3 = 12"
    by simp
  have "src inplace_para = dst inplace_para"
    by (simp add: inplace_para_def)
  then show ?thesis
    using m1 m2 by (simp add: r1 r2)
qed

text \<open>
  C8, amended. When the destination elements do not overlap the source elements, running
  the kernel twice in succession with the same descriptor leaves all of global memory after
  the second run as it was after the first; and the destination after a run is determined
  by the descriptor and the source elements alone: a run from any other memory and any
  other state of the transfer descriptors that holds the same source elements leaves the
  same destination elements.
\<close>

theorem rerun_same_destination:
  fixes mul :: "'a \<Rightarrow> 'a \<Rightarrow> 'a" and para :: "'a sscalPara" and M :: "'a machine"
  assumes "0 \<le> count para"
    and "src para + count para \<le> dst para \<or> dst para + count para \<le> src para"
    and "distinct ids" and "set ids = {0 ..< SPNUM}"
    and "distinct ids'" and "set ids' = {0 ..< SPNUM}"
  shows "\<exists>M1 M2. run_workers (sw_slave_sscal_f mul) para M ids = Some M1
           \<and> run_workers (sw_slave_sscal_f mul) para M1 ids' = Some M2
           \<and> mem M2 = mem M1
           \<and> (\<forall>Ma. (\<forall>i. 0 \<le> i \<and> i < count para \<longrightarrow> mem Ma (src para + i) = mem M (src para + i))
                 \<longrightarrow> (\<exists>Mb. run_workers (sw_slave_sscal_f mul) para Ma ids' = Some Mb
                        \<and> (\<forall>i. 0 \<le> i \<and> i < count para
                              \<longrightarrow> mem Mb (dst para + i) = mem M1 (dst para + i))))"
proof -
  have nc: "no_clobber (src para) (dst para) (count para)"
    using assms(2) by (auto simp: no_clobber_def)
  from run_all_effect [OF assms(1) nc assms(3,4), of mul M]
  obtain M1 where r1: "run_workers (sw_slave_sscal_f mul) para M ids = Some M1"
    and v1: "mem M1 = scaled_on mul (alpha para) (mem M) (src para) (dst para) {0 ..< count para}"
    by blast
  from run_all_effect [OF assms(1) nc assms(5,6), of mul M1]
  obtain M2 where r2: "run_workers (sw_slave_sscal_f mul) para M1 ids' = Some M2"
    and v2: "mem M2 = scaled_on mul (alpha para) (mem M1) (src para) (dst para) {0 ..< count para}"
    by blast
  have same: "mem M2 = mem M1"
  proof
    fix x
    show "mem M2 x = mem M1 x"
    proof (cases "x - dst para \<in> {0 ..< count para}")
      case False
      then show ?thesis
        by (auto simp: v2 scaled_on_def)
    next
      case True
      then have "src para + (x - dst para) - dst para \<notin> {0 ..< count para}"
        using assms(2) by auto
      then have "mem M1 (src para + (x - dst para)) = mem M (src para + (x - dst para))"
        unfolding v1 by (rule scaled_on_outside)
      then show ?thesis
        using True by (simp add: v2 v1 scaled_on_inside)
    qed
  qed
  have other: "\<exists>Mb. run_workers (sw_slave_sscal_f mul) para Ma ids' = Some Mb
                 \<and> (\<forall>i. 0 \<le> i \<and> i < count para \<longrightarrow> mem Mb (dst para + i) = mem M1 (dst para + i))"
    if a: "\<forall>i. 0 \<le> i \<and> i < count para \<longrightarrow> mem Ma (src para + i) = mem M (src para + i)"
    for Ma :: "'a machine"
  proof -
    from run_all_effect [OF assms(1) nc assms(5,6), of mul Ma]
    obtain Mb where rb: "run_workers (sw_slave_sscal_f mul) para Ma ids' = Some Mb"
      and vb: "mem Mb = scaled_on mul (alpha para) (mem Ma) (src para) (dst para) {0 ..< count para}"
      by blast
    have "mem Mb (dst para + i) = mem M1 (dst para + i)" if "0 \<le> i \<and> i < count para" for i
      using that a by (simp add: vb v1 scaled_on_def)
    then show ?thesis
      using rb by blast
  qed
  show ?thesis
    using r1 r2 same other by blast
qed

theorem rerun_same_destination_witness:
  "(0::int) \<le> count ex_para
   \<and> src ex_para + count ex_para \<le> dst ex_para
   \<and> (\<exists>M1 M2. run_workers (sw_slave_sscal_f (*)) ex_para ex_machine all_workers = Some M1
          \<and> run_workers (sw_slave_sscal_f (*)) ex_para M1 (rev all_workers) = Some M2
          \<and> mem M2 = mem M1)"
proof -
  have h: "(0::int) \<le> count ex_para" "src ex_para + count ex_para \<le> dst ex_para"
    by (simp_all add: ex_para_def)
  have w: "distinct all_workers" "set all_workers = {0 ..< SPNUM}"
    "distinct (rev all_workers)" "set (rev all_workers) = {0 ..< SPNUM}"
    using all_workers_set by simp_all
  from rerun_same_destination [OF h(1) disjI1 [OF h(2)] w, of "(*)" ex_machine]
  have "\<exists>M1 M2. run_workers (sw_slave_sscal_f (*)) ex_para ex_machine all_workers = Some M1
          \<and> run_workers (sw_slave_sscal_f (*)) ex_para M1 (rev all_workers) = Some M2
          \<and> mem M2 = mem M1"
    by blast
  with h show ?thesis
    by simp
qed

text \<open>
  C9, as the specification has it: for \<open>N = 10\<close> four workers receive the counts
  \<open>[3, 3, 2, 2]\<close> at the offsets \<open>[0, 3, 6, 8]\<close>. The kernel has no population of four: its
  partition arithmetic is written with the constant \<^verbatim>\<open>SPNUM\<close>, which is 64, and its workers
  0 to 3 receive one element each, at the offsets 0 to 3.
\<close>

theorem scenario_population_counterexample:
  "SPNUM = 64 \<and> length all_workers = 64
   \<and> map (local_count_of 10) [0, 1, 2, 3] = [1, 1, 1, 1]
   \<and> map (start_of 10) [0, 1, 2, 3] = [0, 1, 2, 3]
   \<and> map (local_count_of 10) [0, 1, 2, 3] \<noteq> [3, 3, 2, 2]
   \<and> map (start_of 10) [0, 1, 2, 3] \<noteq> [0, 3, 6, 8]"
  by (simp add: SPNUM_def all_workers_def local_count_nonneg_count start_nonneg_count)

text \<open>
  C9, amended. For \<open>N = 10\<close> the partition contract at a population of 4 gives the counts
  \<open>[3, 3, 2, 2]\<close> at the offsets \<open>[0, 3, 6, 8]\<close>. The kernel runs with its population of 64:
  worker \<open>id\<close> receives one element at offset \<open>id\<close> when \<open>id < 10\<close> and none (at offset 10)
  otherwise; with \<open>alpha = 2\<close> and \<open>x = [0, 1, \<dots>, 9]\<close> it leaves the destination equal to
  \<open>[0, 2, 4, \<dots>, 18]\<close>.
\<close>

theorem scenario_ten_elements:
  fixes M :: "real machine"
  assumes "\<forall>i. 0 \<le> i \<and> i < 10 \<longrightarrow> mem M (s + i) = of_int i"
    and "no_clobber s d 10"
  shows "map (spec_local_count 10 4) [0, 1, 2, 3] = [3, 3, 2, 2]
       \<and> map (spec_start_offset 10 4) [0, 1, 2, 3] = [0, 3, 6, 8]
       \<and> (\<forall>tid \<in> set all_workers.
             local_count_of 10 tid = (if tid < 10 then 1 else 0) \<and> start_of 10 tid = min tid 10)
       \<and> (\<exists>M'. run_workers (sw_slave_sscal_f (*)) \<lparr>src = s, dst = d, alpha = 2, count = 10\<rparr> M
                  all_workers = Some M'
              \<and> map (\<lambda>i. mem M' (d + i)) [0, 1, 2, 3, 4, 5, 6, 7, 8, 9]
                  = [0, 2, 4, 6, 8, 10, 12, 14, 16, 18])"
proof -
  define para :: "real sscalPara" where "para = \<lparr>src = s, dst = d, alpha = 2, count = 10\<rparr>"
  have p: "0 \<le> count para" "no_clobber (src para) (dst para) (count para)"
    using assms(2) by (simp_all add: para_def)
  note w = all_workers_set [THEN conjunct1] all_workers_set [THEN conjunct2]
  from run_all_effect [OF p w, of "(*)" M]
  obtain M' where r: "run_workers (sw_slave_sscal_f (*)) para M all_workers = Some M'"
    and v: "mem M' = scaled_on (*) 2 (mem M) s d {0 ..< 10}"
    by (auto simp: para_def)
  have el: "mem M' (d + i) = 2 * of_int i" if "0 \<le> i" "i < 10" for i
    using that assms(1) by (simp add: v scaled_on_def)
  have els: "map (\<lambda>i. mem M' (d + i)) [0, 1, 2, 3, 4, 5, 6, 7, 8, 9]
          = [0, 2, 4, 6, 8, 10, 12, 14, 16, 18]"
    using el [of 0] el [of 1] el [of 2] el [of 3] el [of 4] el [of 5] el [of 6] el [of 7]
      el [of 8] el [of 9]
    by simp
  have run: "\<exists>M'. run_workers (sw_slave_sscal_f (*)) \<lparr>src = s, dst = d, alpha = 2, count = 10\<rparr> M
                       all_workers = Some M'
              \<and> map (\<lambda>i. mem M' (d + i)) [0, 1, 2, 3, 4, 5, 6, 7, 8, 9]
                  = [0, 2, 4, 6, 8, 10, 12, 14, 16, 18]"
  proof (intro exI conjI)
    show "run_workers (sw_slave_sscal_f (*)) \<lparr>src = s, dst = d, alpha = 2, count = 10\<rparr> M
            all_workers = Some M'"
      using r by (simp add: para_def)
    show "map (\<lambda>i. mem M' (d + i)) [0, 1, 2, 3, 4, 5, 6, 7, 8, 9]
            = [0, 2, 4, 6, 8, 10, 12, 14, 16, 18]"
      by (rule els)
  qed
  have part: "\<forall>tid \<in> set all_workers.
                local_count_of 10 tid = (if tid < 10 then 1 else 0) \<and> start_of 10 tid = min tid 10"
    by (simp add: local_count_nonneg_count start_nonneg_count)
  have four: "map (spec_local_count 10 4) [0, 1, 2, 3] = [3, 3, 2, 2]"
    "map (spec_start_offset 10 4) [0, 1, 2, 3] = [0, 3, 6, 8]"
    by (simp_all add: spec_local_count_def spec_start_offset_def)
  show ?thesis
    using four part run by simp
qed

theorem scenario_ten_elements_witness:
  "mem ex_machine (0 + 7) = of_int 7 \<and> no_clobber 0 100 10
   \<and> local_count_of 10 7 = 1 \<and> start_of 10 7 = 7
   \<and> local_count_of 10 12 = 0 \<and> start_of 10 12 = 10
   \<and> (\<exists>M'. run_workers (sw_slave_sscal_f (*)) ex_para ex_machine all_workers = Some M'
          \<and> map (\<lambda>i. mem M' (100 + i)) [0, 1, 2, 3, 4, 5, 6, 7, 8, 9]
              = [0, 2, 4, 6, 8, 10, 12, 14, 16, 18])"
proof -
  have a: "\<forall>i. 0 \<le> i \<and> i < 10 \<longrightarrow> mem ex_machine (0 + i) = of_int i"
    by (simp add: ex_machine_def)
  have nc: "no_clobber 0 100 10"
    by (simp add: no_clobber_def)
  note t = scenario_ten_elements [OF a nc]
  have m: "(7::int) \<in> set all_workers" "(12::int) \<in> set all_workers"
    using all_workers_set by (simp_all add: SPNUM_def)
  from t have part: "\<forall>tid \<in> set all_workers.
      local_count_of 10 tid = (if tid < 10 then 1 else 0) \<and> start_of 10 tid = min tid 10"
    by blast
  have "local_count_of 10 7 = 1 \<and> start_of 10 7 = 7" "local_count_of 10 12 = 0 \<and> start_of 10 12 = 10"
    using part [rule_format, OF m(1)] part [rule_format, OF m(2)] by simp_all
  moreover from t have "\<exists>M'. run_workers (sw_slave_sscal_f (*)) ex_para ex_machine all_workers = Some M'
          \<and> map (\<lambda>i. mem M' (100 + i)) [0, 1, 2, 3, 4, 5, 6, 7, 8, 9]
              = [0, 2, 4, 6, 8, 10, 12, 14, 16, 18]"
    unfolding ex_para_def by blast
  ultimately show ?thesis
    using nc by (simp add: ex_machine_def)
qed

text \<open>
  C4, as the specification has it: \<^verbatim>\<open>sw_slave_sscal_d\<close> writes
  \<open>destination[i] = alpha * source[i]\<close> over its worker's partition. The body of the function
  is a comment: worker 3 of the ten-element example owns element 3, and after the call the
  destination element still holds 103, where \<open>alpha * source[3]\<close> is 6.
\<close>

theorem sscal_d_counterexample:
  "local_count_of (count ex_para) 3 = 1 \<and> start_of (count ex_para) 3 = 3
   \<and> map_option (\<lambda>c. gmem c (dst ex_para + 3)) (sw_slave_sscal_d ex_para 3 ex_cpe) = Some 103
   \<and> alpha ex_para * gmem ex_cpe (src ex_para + 3) = 6"
  by (simp add: sw_slave_sscal_d_def ex_para_def ex_cpe_def ex_partition)

text \<open>
  C4, amended. The double-precision entry point \<^verbatim>\<open>sw_slave_sscal_d\<close> is disabled: for every
  descriptor, worker and memory it returns at once, with no allocation and no transfer, and
  a run of the whole population leaves global memory and every transfer descriptor as they
  were. Only \<^verbatim>\<open>sw_slave_sscal_f\<close> scales.
\<close>

theorem sscal_d_disabled:
  "sw_slave_sscal_d para tid c = Some c \<and> run_workers sw_slave_sscal_d para M ids = Some M"
  by (simp add: sw_slave_sscal_d_def run_workers_sscal_d)

end
